theory Spec2Isabelle
  imports Main "HOL-Library.Multiset"
begin

text \<open>
  A shallow embedding of the page editor of n8n-Ui-Builder: the store of the component tree
  (\<^verbatim>\<open>store/editorStore.ts\<close>), the expression evaluator (\<^verbatim>\<open>utils/evaluator.ts\<close>) and the action
  runner (\<^verbatim>\<open>utils/actionRunner.ts\<close>), with the properties that its specification states about
  them. The store's deep clone of the tree is the identity here: values are never mutated.
\<close>

section \<open>Values\<close>

text \<open>
  The values of the editor's data context, of action configurations and of templates
  (TypeScript \<^verbatim>\<open>any\<close>): JSON values and \<^verbatim>\<open>undefined\<close>. Numbers are the integers; an object
  is the list of its entries in insertion order, with one entry for each key. Strings are
  lists of \<^typ>\<open>char\<close>, one for each code unit below 256.
\<close>

datatype json =
    JUndefined
  | JNull
  | JBool bool
  | JNum int
  | JStr string
  | JArr "json list"
  | JObj "(string \<times> json) list"

type_synonym record_any = "(string \<times> json) list"

text \<open>\<^verbatim>\<open>{ ...obj, [k]: v }\<close>: an existing key keeps its place and takes the new value, a new
  key goes to the end. JavaScript lists the keys that are array indices before the others;
  that reordering is not modelled, the keys and their values are the same.\<close>

fun obj_set :: "string \<Rightarrow> json \<Rightarrow> record_any \<Rightarrow> record_any" where
  "obj_set k v [] = [(k, v)]"
| "obj_set k v ((k', v') # kvs) =
     (if k' = k then (k, v) # kvs else (k', v') # obj_set k v kvs)"

text \<open>\<^verbatim>\<open>{ ...a, ...b }\<close>: the entries of \<open>b\<close> are assigned over those of \<open>a\<close>, in order.\<close>

definition spread2 :: "record_any \<Rightarrow> record_any \<Rightarrow> record_any" where
  "spread2 a b = foldl (\<lambda>acc (k, v). obj_set k v acc) a b"

subsection \<open>Conversion to string\<close>

definition digit_char :: "nat \<Rightarrow> char" where
  "digit_char d = char_of (48 + d)"

fun string_of_nat :: "nat \<Rightarrow> string" where
  "string_of_nat n =
     (if n < 10 then [digit_char n] else string_of_nat (n div 10) @ [digit_char (n mod 10)])"

declare string_of_nat.simps [simp del]

definition string_of_int :: "int \<Rightarrow> string" where
  "string_of_int i = (if i < 0 then CHR ''-'' # string_of_nat (nat (- i)) else string_of_nat (nat i))"

fun join :: "string \<Rightarrow> string list \<Rightarrow> string" where
  "join sep [] = []"
| "join sep [x] = x"
| "join sep (x # y # ys) = x @ sep @ join sep (y # ys)"

text \<open>JavaScript's \<^verbatim>\<open>String(value)\<close>. An array joins its elements with commas, where
  \<^verbatim>\<open>null\<close> and \<^verbatim>\<open>undefined\<close> elements give the empty string; a plain object gives
  \<^verbatim>\<open>[object Object]\<close>. An integer is printed with all its digits; the exponent form that
  JavaScript uses from \<open>10\<^sup>2\<^sup>1\<close> on is not modelled.\<close>

fun js_String :: "json \<Rightarrow> string" where
  "js_String JUndefined = ''undefined''"
| "js_String JNull = ''null''"
| "js_String (JBool b) = (if b then ''true'' else ''false'')"
| "js_String (JNum n) = string_of_int n"
| "js_String (JStr s) = s"
| "js_String (JArr xs) =
     join '','' (map (\<lambda>x. if x = JNull \<or> x = JUndefined then [] else js_String x) xs)"
| "js_String (JObj kvs) = ''[object Object]''"

subsection \<open>Path lookup\<close>

text \<open>
  The library function \<^verbatim>\<open>_.get(object, path, defaultValue)\<close> of lodash, for own properties
  and for paths written with dots. Two things that the library does are not modelled:
  bracket notation (a bracket is an ordinary character of a key here), and properties that
  a value inherits from its prototype, such as \<^verbatim>\<open>constructor\<close> or \<^verbatim>\<open>toString\<close>, which read as
  \<^verbatim>\<open>undefined\<close> here. A path that is itself a key of the object is used whole.
\<close>

definition is_digit :: "char \<Rightarrow> bool" where
  "is_digit c = ((48::nat) \<le> of_char c \<and> of_char c \<le> (57::nat))"

fun nat_of_digits :: "nat \<Rightarrow> string \<Rightarrow> nat" where
  "nat_of_digits acc [] = acc"
| "nat_of_digits acc (c # cs) = nat_of_digits (10 * acc + (of_char c - 48)) cs"

text \<open>An array index is a canonical decimal numeral: digits only, no leading zero.\<close>

definition array_index :: "string \<Rightarrow> nat option" where
  "array_index k =
     (if k \<noteq> [] \<and> list_all is_digit k \<and> (length k = 1 \<or> hd k \<noteq> CHR ''0'')
      then Some (nat_of_digits 0 k) else None)"

fun get_prop :: "json \<Rightarrow> string \<Rightarrow> json" where
  "get_prop (JObj kvs) k = (case map_of kvs k of Some v \<Rightarrow> v | None \<Rightarrow> JUndefined)"
| "get_prop (JArr xs) k =
     (if k = ''length'' then JNum (int (length xs))
      else case array_index k of
             Some i \<Rightarrow> if i < length xs then xs ! i else JUndefined
           | None \<Rightarrow> JUndefined)"
| "get_prop (JStr s) k =
     (if k = ''length'' then JNum (int (length s))
      else case array_index k of
             Some i \<Rightarrow> if i < length s then JStr [s ! i] else JUndefined
           | None \<Rightarrow> JUndefined)"
| "get_prop _ k = JUndefined"

fun has_key :: "json \<Rightarrow> string \<Rightarrow> bool" where
  "has_key (JObj kvs) k = (k \<in> set (map fst kvs))"
| "has_key (JArr xs) k =
     (k = ''length'' \<or> (case array_index k of Some i \<Rightarrow> i < length xs | None \<Rightarrow> False))"
| "has_key (JStr s) k =
     (k = ''length'' \<or> (case array_index k of Some i \<Rightarrow> i < length s | None \<Rightarrow> False))"
| "has_key _ k = False"

fun split_on :: "char \<Rightarrow> string \<Rightarrow> string \<Rightarrow> string list" where
  "split_on d acc [] = [acc]"
| "split_on d acc (c # cs) = (if c = d then acc # split_on d [] cs else split_on d (acc @ [c]) cs)"

definition castPath :: "string \<Rightarrow> json \<Rightarrow> string list" where
  "castPath path object =
     (if CHR ''.'' \<notin> set path \<or> has_key object path then [path]
      else split_on CHR ''.'' [] path)"

fun baseGet :: "json \<Rightarrow> string list \<Rightarrow> json" where
  "baseGet object [] = object"
| "baseGet object (k # ks) =
     (if object = JNull \<or> object = JUndefined then JUndefined
      else baseGet (get_prop object k) ks)"

definition lodash_get :: "json \<Rightarrow> string \<Rightarrow> json \<Rightarrow> json" where
  "lodash_get object path defaultValue =
     (let result = (if object = JNull \<or> object = JUndefined then JUndefined
                    else baseGet object (castPath path object))
      in if result = JUndefined then defaultValue else result)"

section \<open>Expression evaluator\<close>

text \<open>
  What can be thrown, or be the reason of a rejected promise: the \<^verbatim>\<open>TypeError\<close> of a call of
  something that is not a function, a rejected \<^verbatim>\<open>fetch\<close>, and a response body that is not
  JSON.
\<close>

datatype error = NotAFunction | FetchRejected | JsonRejected

text \<open>White space as \<^verbatim>\<open>\s\<close> and \<^verbatim>\<open>trim\<close> see it, and the line terminators that \<^verbatim>\<open>.\<close> refuses.\<close>

definition is_space :: "char \<Rightarrow> bool" where
  "is_space c = (of_char c \<in> {9, 10, 11, 12, 13, 32, 160 :: nat})"

definition is_line_terminator :: "char \<Rightarrow> bool" where
  "is_line_terminator c = (of_char c \<in> {10, 13 :: nat})"

definition trim :: "string \<Rightarrow> string" where
  "trim s = rev (dropWhile is_space (rev (dropWhile is_space s)))"

definition starts_with :: "string \<Rightarrow> string \<Rightarrow> bool" where
  "starts_with p s = (take (length p) s = p)"

fun str_includes :: "string \<Rightarrow> string \<Rightarrow> bool" where
  "str_includes p [] = (p = [])"
| "str_includes p (c # cs) = (starts_with p (c # cs) \<or> str_includes p cs)"

text \<open>
  The tail \<^verbatim>\<open>(.+?)\}\}\s*$\<close> of the pure pattern, as the backtracking matcher runs it: the
  group takes one more character (never a line terminator) at a time, and the first length
  at which the rest of the input is \<^verbatim>\<open>}}\<close> followed by white space only is the match.
\<close>

definition pure_tail_ok :: "string \<Rightarrow> bool" where
  "pure_tail_ok s = (starts_with ''}}'' s \<and> list_all is_space (drop 2 s))"

fun pure_group :: "string \<Rightarrow> string \<Rightarrow> string option" where
  "pure_group acc [] = None"
| "pure_group acc (c # cs) =
     (if is_line_terminator c then None
      else if pure_tail_ok cs then Some (acc @ [c])
      else pure_group (acc @ [c]) cs)"

text \<open>\<^verbatim>\<open>template.match(/^\s*\{\{(.+?)\}\}\s*$/)\<close>: the captured group, or \<open>None\<close> for no match.\<close>

definition pureMatch :: "string \<Rightarrow> string option" where
  "pureMatch template =
     (let s = dropWhile is_space template
      in if starts_with ''{{'' s then pure_group [] (drop 2 s) else None)"

text \<open>
  One occurrence of \<^verbatim>\<open>\{\{(.+?)\}\}\<close> whose opening braces have been read: the shortest
  non-empty group without a line terminator that is followed by \<^verbatim>\<open>}}\<close>, and what is left
  of the input after it.
\<close>

fun find_close :: "string \<Rightarrow> string \<Rightarrow> (string \<times> string) option" where
  "find_close acc [] = None"
| "find_close acc (c # cs) =
     (if is_line_terminator c then None
      else if starts_with ''}}'' cs then Some (acc @ [c], drop 2 cs)
      else find_close (acc @ [c]) cs)"

lemma find_close_length:
  "find_close acc s = Some (g, rest) \<Longrightarrow> length rest < length s"
proof (induction s arbitrary: acc)
  case Nil
  then show ?case by simp
next
  case (Cons c cs)
  show ?case
  proof (cases "starts_with ''}}'' cs")
    case True
    with Cons.prems show ?thesis by (auto split: if_splits)
  next
    case False
    with Cons.prems have "find_close (acc @ [c]) cs = Some (g, rest)"
      by (auto split: if_splits)
    then have "length rest < length cs" by (rule Cons.IH)
    then show ?thesis by simp
  qed
qed

text \<open>
  \<^verbatim>\<open>template.replace(/\{\{(.+?)\}\}/g, callback)\<close>, scanning from the left. The callback gets
  the matched text and the group; when it throws, so does \<^verbatim>\<open>replace\<close>.
\<close>

function replace_refs :: "(string \<Rightarrow> string \<Rightarrow> error + string) \<Rightarrow> string \<Rightarrow> error + string" where
  "replace_refs f [] = Inr []"
| "replace_refs f (c # cs) =
     (if starts_with ''{{'' (c # cs) then
        (case find_close [] (drop 1 cs) of
           Some (path, rest) \<Rightarrow>
             (case f (''{{'' @ path @ ''}}'') path of
                Inl e \<Rightarrow> Inl e
              | Inr r \<Rightarrow>
                  (case replace_refs f rest of
                     Inl e \<Rightarrow> Inl e
                   | Inr t \<Rightarrow> Inr (r @ t)))
         | None \<Rightarrow>
             (case replace_refs f cs of Inl e \<Rightarrow> Inl e | Inr t \<Rightarrow> Inr (c # t)))
      else (case replace_refs f cs of Inl e \<Rightarrow> Inl e | Inr t \<Rightarrow> Inr (c # t)))"
  by pat_completeness auto

termination
  by (relation "measure (\<lambda>(f, s). length s)") (auto dest: find_close_length)

declare replace_refs.simps [simp del]

text \<open>
  The callback of the interpolation case, \<^verbatim>\<open>(_, path) => { const value = _.get(context,
  path.trim(), ''); ... }\<close>. Its first parameter is named \<^verbatim>\<open>_\<close>: inside the callback that
  name is the matched text, not the library. The callback reads the property \<^verbatim>\<open>get\<close> of that
  string and calls it. A string has no such property, and no value of this model is a
  function: the call throws a \<^verbatim>\<open>TypeError\<close>, and the lines after it are never reached.
\<close>

definition interpolation_callback :: "record_any \<Rightarrow> string \<Rightarrow> string \<Rightarrow> error + string" where
  "interpolation_callback context matched path =
     (case get_prop (JStr matched) ''get'' of
        JUndefined \<Rightarrow> Inl NotAFunction
      | _ \<Rightarrow> Inl NotAFunction)"

text \<open>The function \<^verbatim>\<open>evaluateExpression(template, context)\<close>; \<open>Inl\<close> is an exception.\<close>

definition evaluateExpression :: "json \<Rightarrow> record_any \<Rightarrow> error + json" where
  "evaluateExpression template context =
     (case template of
        JStr t \<Rightarrow>
          (case pureMatch t of
             Some g \<Rightarrow> Inr (lodash_get (JObj context) (trim g) JUndefined)
           | None \<Rightarrow>
               if str_includes ''{{'' t then
                 (case replace_refs (interpolation_callback context) t of
                    Inl e \<Rightarrow> Inl e
                  | Inr r \<Rightarrow> Inr (JStr r))
               else Inr (JStr t))
      | _ \<Rightarrow> Inr template)"

section \<open>Component tree\<close>

datatype ComponentType =
  Page | Container | Row | Column | Input | Button | Text | Image | Table | Select

datatype ActionType = N8nWebhook | SetState | ConsoleLog | Alert

record Action =
  action_id :: string
  action_type :: ActionType
  config :: record_any

text \<open>The interface \<^verbatim>\<open>ComponentSchema\<close>; an optional field is an \<open>option\<close>.\<close>

datatype ComponentSchema =
  ComponentSchema
    (node_id: string)
    (node_type: ComponentType)
    (label: "string option")
    (props: record_any)
    (style: "record_any option")
    (events: "(string \<times> Action list) list option")
    (children: "ComponentSchema list option")

definition set_children :: "ComponentSchema \<Rightarrow> ComponentSchema list option \<Rightarrow> ComponentSchema" where
  "set_children n ch =
     ComponentSchema (node_id n) (node_type n) (label n) (props n) (style n) (events n) ch"

fun type_name :: "ComponentType \<Rightarrow> string" where
  "type_name Page = ''page''"
| "type_name Container = ''container''"
| "type_name Row = ''row''"
| "type_name Column = ''column''"
| "type_name Input = ''input''"
| "type_name Button = ''button''"
| "type_name Text = ''text''"
| "type_name Image = ''image''"
| "type_name Table = ''table''"
| "type_name Select = ''select''"

record EditorState =
  root :: ComponentSchema
  selectedId :: "string option"
  storeData :: record_any

text \<open>The state the store starts in.\<close>

definition initialRoot :: ComponentSchema where
  "initialRoot =
     ComponentSchema ''root'' Page (Some ''Page Root'') []
       (Some [(''padding'', JStr ''20px''), (''minHeight'', JStr ''100%'')]) None (Some [])"

definition initial_state :: EditorState where
  "initial_state =
     \<lparr>root = initialRoot,
      selectedId = None,
      storeData =
        [(''user'', JObj [(''name'', JStr ''John Doe''), (''email'', JStr ''john@example.com'')]),
         (''app'', JObj [(''title'', JStr ''My Awesome App''), (''version'', JStr ''1.0.0'')])]\<rparr>"

subsection \<open>Search helpers\<close>

text \<open>
  What a \<^verbatim>\<open>findAndModify\<close> callback did: it mutated the node it was given, or the parent
  it was given. The constructor carries the mutated object.
\<close>

datatype touched = TouchedNode ComponentSchema | TouchedParent ComponentSchema

type_synonym callback = "ComponentSchema \<Rightarrow> ComponentSchema option \<Rightarrow> nat \<Rightarrow> touched"

definition set_child :: "ComponentSchema \<Rightarrow> nat \<Rightarrow> ComponentSchema \<Rightarrow> ComponentSchema" where
  "set_child n k c = set_children n (map_option (\<lambda>cs. cs[k := c]) (children n))"

text \<open>
  \<^verbatim>\<open>findAndModify(node, targetId, callback, parent, index)\<close>. The source returns a boolean
  and mutates the clone in place; here \<open>None\<close> is \<^verbatim>\<open>false\<close>, and \<open>Some\<close> carries the object
  the callback mutated. \<open>findAndModify_children node rest k\<close> is the loop over
  \<^verbatim>\<open>node.children\<close> from index \<open>k\<close> on, and returns \<open>node\<close> as it is after the call.
\<close>

fun findAndModify ::
    "ComponentSchema \<Rightarrow> string \<Rightarrow> callback \<Rightarrow> ComponentSchema option \<Rightarrow> nat \<Rightarrow> touched option"
  and findAndModify_children ::
    "ComponentSchema \<Rightarrow> ComponentSchema list \<Rightarrow> nat \<Rightarrow> string \<Rightarrow> callback \<Rightarrow> ComponentSchema option"
where
  "findAndModify (ComponentSchema i t l p s e ch) targetId cb parent index =
     (if i = targetId then Some (cb (ComponentSchema i t l p s e ch) parent index)
      else case ch of
             None \<Rightarrow> None
           | Some cs \<Rightarrow>
               map_option TouchedNode
                 (findAndModify_children (ComponentSchema i t l p s e ch) cs 0 targetId cb))"
| "findAndModify_children node [] k targetId cb = None"
| "findAndModify_children node (c # rest) k targetId cb =
     (case findAndModify c targetId cb (Some node) k of
        Some (TouchedNode c') \<Rightarrow> Some (set_child node k c')
      | Some (TouchedParent p') \<Rightarrow> Some p'
      | None \<Rightarrow> findAndModify_children node rest (Suc k) targetId cb)"

text \<open>The clone of the root after \<^verbatim>\<open>findAndModify(newRoot, targetId, callback)\<close>.\<close>

definition modified_root :: "ComponentSchema \<Rightarrow> string \<Rightarrow> callback \<Rightarrow> ComponentSchema" where
  "modified_root newRoot targetId cb =
     (case findAndModify newRoot targetId cb None 0 of
        Some (TouchedNode r) \<Rightarrow> r
      | _ \<Rightarrow> newRoot)"

fun findNode :: "ComponentSchema \<Rightarrow> string \<Rightarrow> ComponentSchema option"
  and findNode_children :: "ComponentSchema list \<Rightarrow> string \<Rightarrow> ComponentSchema option"
where
  "findNode (ComponentSchema i t l p s e ch) ident =
     (if i = ident then Some (ComponentSchema i t l p s e ch)
      else case ch of None \<Rightarrow> None | Some cs \<Rightarrow> findNode_children cs ident)"
| "findNode_children [] ident = None"
| "findNode_children (c # cs) ident =
     (case findNode c ident of Some found \<Rightarrow> Some found | None \<Rightarrow> findNode_children cs ident)"

subsection \<open>Store operations\<close>

definition selectComponent :: "string option \<Rightarrow> EditorState \<Rightarrow> EditorState" where
  "selectComponent ident st = st\<lparr>selectedId := ident\<rparr>"

definition getComponentById :: "EditorState \<Rightarrow> string \<Rightarrow> ComponentSchema option" where
  "getComponentById st ident = findNode (root st) ident"

definition setRoot :: "ComponentSchema \<Rightarrow> EditorState \<Rightarrow> EditorState" where
  "setRoot r st = st\<lparr>root := r\<rparr>"

definition setStoreData :: "string \<Rightarrow> json \<Rightarrow> EditorState \<Rightarrow> EditorState" where
  "setStoreData key v st = st\<lparr>storeData := obj_set key v (storeData st)\<rparr>"

text \<open>The component that \<^verbatim>\<open>addComponent\<close> builds; \<open>now\<close> is the value of \<^verbatim>\<open>Date.now()\<close>.\<close>

definition newComponent :: "ComponentType \<Rightarrow> int \<Rightarrow> ComponentSchema" where
  "newComponent t now =
     ComponentSchema (type_name t @ ''_'' @ string_of_int now) t (Some (type_name t)) []
       (Some (if t = Row then [(''display'', JStr ''flex''), (''gap'', JStr ''10px'')] else []))
       None
       (if t = Container \<or> t = Row \<or> t = Column then Some [] else None)"

definition push_child :: "ComponentSchema \<Rightarrow> ComponentSchema \<Rightarrow> ComponentSchema" where
  "push_child c n = set_children n (Some ((case children n of None \<Rightarrow> [] | Some cs \<Rightarrow> cs) @ [c]))"

definition addComponent :: "string \<Rightarrow> ComponentType \<Rightarrow> int \<Rightarrow> EditorState \<Rightarrow> EditorState" where
  "addComponent parentId t now st =
     (let c = newComponent t now;
          newRoot =
            (if parentId = ''root'' then push_child c (root st)
             else modified_root (root st) parentId (\<lambda>node parent index. TouchedNode (push_child c node)))
      in st\<lparr>root := newRoot, selectedId := Some (node_id c)\<rparr>)"

text \<open>
  \<^verbatim>\<open>Partial<ComponentSchema>\<close>: \<open>None\<close> is a key that is not in the object. A key of an
  optional field may be there with the value \<^verbatim>\<open>undefined\<close>.
\<close>

record updates =
  u_id :: "string option"
  u_type :: "ComponentType option"
  u_label :: "string option option"
  u_props :: "record_any option"
  u_style :: "record_any option option"
  u_events :: "(string \<times> Action list) list option option"
  u_children :: "ComponentSchema list option option"

definition assign :: "updates \<Rightarrow> ComponentSchema \<Rightarrow> ComponentSchema" where
  "assign u n =
     ComponentSchema
       (case u_id u of None \<Rightarrow> node_id n | Some x \<Rightarrow> x)
       (case u_type u of None \<Rightarrow> node_type n | Some x \<Rightarrow> x)
       (case u_label u of None \<Rightarrow> label n | Some x \<Rightarrow> x)
       (case u_props u of None \<Rightarrow> props n | Some x \<Rightarrow> x)
       (case u_style u of None \<Rightarrow> style n | Some x \<Rightarrow> x)
       (case u_events u of None \<Rightarrow> events n | Some x \<Rightarrow> x)
       (case u_children u of None \<Rightarrow> children n | Some x \<Rightarrow> x)"

definition updateComponent :: "string \<Rightarrow> updates \<Rightarrow> EditorState \<Rightarrow> EditorState" where
  "updateComponent ident u st =
     st\<lparr>root := modified_root (root st) ident (\<lambda>node parent index. TouchedNode (assign u node))\<rparr>"

text \<open>\<^verbatim>\<open>xs.splice(i, 1)\<close>.\<close>

definition splice_out :: "nat \<Rightarrow> 'a list \<Rightarrow> 'a list" where
  "splice_out i xs = take i xs @ drop (Suc i) xs"

definition delete_callback :: callback where
  "delete_callback node parent index =
     (case parent of
        None \<Rightarrow> TouchedNode node
      | Some p \<Rightarrow>
          (case children p of
             None \<Rightarrow> TouchedNode node
           | Some cs \<Rightarrow> TouchedParent (set_children p (Some (splice_out index cs)))))"

definition deleteComponent :: "string \<Rightarrow> EditorState \<Rightarrow> EditorState" where
  "deleteComponent ident st =
     (if ident = ''root'' then st
      else st\<lparr>root := modified_root (root st) ident delete_callback, selectedId := None\<rparr>)"

datatype direction = Up | Down

definition move_callback :: "direction \<Rightarrow> callback" where
  "move_callback dir node parent index =
     (case parent of
        None \<Rightarrow> TouchedNode node
      | Some p \<Rightarrow>
          (case children p of
             None \<Rightarrow> TouchedNode node
           | Some cs \<Rightarrow>
               (let newIndex = (if dir = Up then int index - 1 else int index + 1)
                in if 0 \<le> newIndex \<and> newIndex < int (length cs)
                   then TouchedParent
                          (set_children p
                             (Some (cs[index := cs ! nat newIndex, nat newIndex := cs ! index])))
                   else TouchedParent p)))"

definition moveComponent :: "string \<Rightarrow> direction \<Rightarrow> EditorState \<Rightarrow> EditorState" where
  "moveComponent ident dir st =
     (if ident = ''root'' then st
      else st\<lparr>root := modified_root (root st) ident (move_callback dir)\<rparr>)"

subsection \<open>Moving a component to a container\<close>

text \<open>\<^verbatim>\<open>xs.findIndex(p)\<close>, with \<open>None\<close> for \<open>-1\<close>.\<close>

fun findIndex :: "('a \<Rightarrow> bool) \<Rightarrow> 'a list \<Rightarrow> nat option" where
  "findIndex p [] = None"
| "findIndex p (x # xs) = (if p x then Some 0 else map_option Suc (findIndex p xs))"

text \<open>
  The closure \<^verbatim>\<open>removeNode\<close> of \<^verbatim>\<open>moveComponentTo\<close>: \<open>None\<close> is \<^verbatim>\<open>false\<close>, and \<open>Some\<close> carries
  the node after the removal and the value of \<^verbatim>\<open>draggedNode\<close>.
\<close>

fun removeNode :: "string \<Rightarrow> ComponentSchema \<Rightarrow> (ComponentSchema \<times> ComponentSchema) option"
  and removeNode_children ::
    "string \<Rightarrow> ComponentSchema list \<Rightarrow> (ComponentSchema list \<times> ComponentSchema) option"
where
  "removeNode dragId (ComponentSchema i t l p s e ch) =
     (case ch of
        None \<Rightarrow> None
      | Some cs \<Rightarrow>
          (case findIndex (\<lambda>c. node_id c = dragId) cs of
             Some idx \<Rightarrow> Some (ComponentSchema i t l p s e (Some (splice_out idx cs)), cs ! idx)
           | None \<Rightarrow>
               (case removeNode_children dragId cs of
                  Some (cs', d) \<Rightarrow> Some (ComponentSchema i t l p s e (Some cs'), d)
                | None \<Rightarrow> None)))"
| "removeNode_children dragId [] = None"
| "removeNode_children dragId (c # cs) =
     (case removeNode dragId c of
        Some (c', d) \<Rightarrow> Some (c' # cs, d)
      | None \<Rightarrow>
          (case removeNode_children dragId cs of
             Some (cs', d) \<Rightarrow> Some (c # cs', d)
           | None \<Rightarrow> None))"

text \<open>\<^verbatim>\<open>Math.min(Math.max(index, 0), n)\<close> for an integer \<open>index\<close>.\<close>

definition safeIndex :: "int \<Rightarrow> nat \<Rightarrow> nat" where
  "safeIndex index n = nat (min (max index 0) (int n))"

text \<open>\<^verbatim>\<open>xs.splice(i, 0, x)\<close> for \<open>i\<close> within the list.\<close>

definition splice_in :: "nat \<Rightarrow> 'a \<Rightarrow> 'a list \<Rightarrow> 'a list" where
  "splice_in i x xs = take i xs @ x # drop i xs"

definition insert_here :: "int \<Rightarrow> ComponentSchema \<Rightarrow> ComponentSchema \<Rightarrow> ComponentSchema" where
  "insert_here index d n =
     (let cs = (case children n of None \<Rightarrow> [] | Some cs \<Rightarrow> cs)
      in set_children n (Some (splice_in (safeIndex index (length cs)) d cs)))"

text \<open>The closure \<^verbatim>\<open>insertNode\<close>: \<open>None\<close> is \<^verbatim>\<open>false\<close>, \<open>Some\<close> the node after the insertion.\<close>

fun insertNode :: "string \<Rightarrow> int \<Rightarrow> ComponentSchema \<Rightarrow> ComponentSchema \<Rightarrow> ComponentSchema option"
  and insertNode_children ::
    "string \<Rightarrow> int \<Rightarrow> ComponentSchema \<Rightarrow> ComponentSchema list \<Rightarrow> ComponentSchema list option"
where
  "insertNode targetId index d (ComponentSchema i t l p s e ch) =
     (if i = targetId then Some (insert_here index d (ComponentSchema i t l p s e ch))
      else case ch of
             None \<Rightarrow> None
           | Some cs \<Rightarrow>
               (case insertNode_children targetId index d cs of
                  Some cs' \<Rightarrow> Some (ComponentSchema i t l p s e (Some cs'))
                | None \<Rightarrow> None))"
| "insertNode_children targetId index d [] = None"
| "insertNode_children targetId index d (c # cs) =
     (case insertNode targetId index d c of
        Some c' \<Rightarrow> Some (c' # cs)
      | None \<Rightarrow>
          (case insertNode_children targetId index d cs of
             Some cs' \<Rightarrow> Some (c # cs')
           | None \<Rightarrow> None))"

definition moveComponentTo :: "string \<Rightarrow> string \<Rightarrow> int \<Rightarrow> EditorState \<Rightarrow> EditorState" where
  "moveComponentTo dragId targetId index st =
     (if dragId = ''root'' then st
      else if dragId = targetId then st
      else case removeNode dragId (root st) of
             None \<Rightarrow> st
           | Some (newRoot, draggedNode) \<Rightarrow>
               (case insertNode targetId index draggedNode newRoot of
                  None \<Rightarrow> st
                | Some newRoot' \<Rightarrow> st\<lparr>root := newRoot'\<rparr>))"

section \<open>Action runner\<close>

text \<open>Reading a key of a configuration object: a missing key reads as \<^verbatim>\<open>undefined\<close>.\<close>

definition cfg :: "record_any \<Rightarrow> string \<Rightarrow> json" where
  "cfg c k = (case map_of c k of Some v \<Rightarrow> v | None \<Rightarrow> JUndefined)"

text \<open>The values that count as true in a condition.\<close>

fun truthy :: "json \<Rightarrow> bool" where
  "truthy JUndefined = False"
| "truthy JNull = False"
| "truthy (JBool b) = b"
| "truthy (JNum n) = (n \<noteq> 0)"
| "truthy (JStr s) = (s \<noteq> [])"
| "truthy (JArr xs) = True"
| "truthy (JObj kvs) = True"

text \<open>The own enumerable entries of a value, as \<^verbatim>\<open>{ ...value }\<close> and \<^verbatim>\<open>Object.entries\<close> list them.\<close>

fun own_entries :: "json \<Rightarrow> record_any" where
  "own_entries (JObj kvs) = kvs"
| "own_entries (JArr xs) = zip (map string_of_nat [0..<length xs]) xs"
| "own_entries (JStr s) = zip (map string_of_nat [0..<length s]) (map (\<lambda>c. JStr [c]) s)"
| "own_entries _ = []"

text \<open>\<^verbatim>\<open>_.get(object, path)\<close> for a path of any type: an array is a list of keys, and a value
  that is neither an array nor a string is one key.\<close>

definition get_path :: "json \<Rightarrow> json \<Rightarrow> json" where
  "get_path object path =
     (case path of
        JStr s \<Rightarrow> lodash_get object s JUndefined
      | JArr ks \<Rightarrow>
          (if ks = [] \<or> object = JNull \<or> object = JUndefined then JUndefined
           else baseGet object (map js_String ks))
      | _ \<Rightarrow>
          (if object = JNull \<or> object = JUndefined then JUndefined
           else baseGet object [js_String path]))"

text \<open>
  What an outbound call meets. \<^verbatim>\<open>fetch\<close> rejects, or the parse of the response body
  rejects, or the body parses to a value. The calls of one run take their outcomes from a
  list, in order; a call that finds the list empty never settles.
\<close>

datatype response = NetworkError | InvalidJson | JsonBody json

record request =
  req_url :: json
  req_method :: json
  req_headers :: "(string \<times> string) list"
  req_body :: "json option"

text \<open>What a run does that can be seen from outside the store.\<close>

datatype event =
    Running Action
  | ActionLog json
  | AlertShown json
  | Fetch request
  | ResponseLog json
  | ErrorLog ActionType error

record world =
  live :: EditorState
  net :: "response list"
  trace :: "event list"

definition emit :: "event \<Rightarrow> world \<Rightarrow> world" where
  "emit e w = w\<lparr>trace := trace w @ [e]\<rparr>"

definition store_set :: "string \<Rightarrow> json \<Rightarrow> world \<Rightarrow> world" where
  "store_set key v w = w\<lparr>live := setStoreData key v (live w)\<rparr>"

text \<open>How the body of one \<^verbatim>\<open>try\<close> block ends: it completes, it throws (or an awaited promise
  rejects), or it waits for ever.\<close>

datatype outcome = Completed world | Threw error world | Pending world

text \<open>The body of the request, before \<^verbatim>\<open>JSON.stringify\<close>: \<open>parse\<close> is \<^verbatim>\<open>JSON.parse\<close>, with
  \<open>None\<close> where it throws.\<close>

definition request_body :: "(string \<Rightarrow> json option) \<Rightarrow> record_any \<Rightarrow> json \<Rightarrow> error + json" where
  "request_body parse context bodyTemplate =
     (if truthy bodyTemplate then
        (case bodyTemplate of
           JStr s \<Rightarrow>
             (case parse s of
                Some parsed \<Rightarrow> Inr parsed
              | None \<Rightarrow>
                  (case evaluateExpression bodyTemplate context of
                     Inl e \<Rightarrow> Inl e
                   | Inr v \<Rightarrow> Inr (JObj [(''value'', v)])))
         | _ \<Rightarrow> Inr bodyTemplate)
      else Inr (JObj []))"

definition apply_mapping :: "json \<Rightarrow> world \<Rightarrow> string \<times> json \<Rightarrow> world" where
  "apply_mapping js w entry =
     (let v = get_path js (snd entry)
      in if v \<noteq> JUndefined then store_set (fst entry) v w else w)"

text \<open>
  The request that the case \<^verbatim>\<open>'n8n-webhook'\<close> hands to \<^verbatim>\<open>fetch\<close>; \<open>globalData\<close> and \<open>context\<close>
  are the constants of that name that \<^verbatim>\<open>runActions\<close> binds before its loop.
\<close>

definition build_request ::
    "(string \<Rightarrow> json option) \<Rightarrow> record_any \<Rightarrow> record_any \<Rightarrow> Action \<Rightarrow> error + request" where
  "build_request parse globalData context action =
     (let url = cfg (config action) ''url'';
          method = (if truthy (cfg (config action) ''method'') then cfg (config action) ''method''
                    else JStr ''POST'')
      in case request_body parse context (cfg (config action) ''body'') of
           Inl e \<Rightarrow> Inl e
         | Inr body \<Rightarrow>
             (let finalBody = obj_set ''context'' (JObj globalData) (own_entries body)
              in Inr \<lparr>req_url = url, req_method = method,
                      req_headers = [(''Content-Type'', ''application/json'')],
                      req_body = (if method \<noteq> JStr ''GET'' then Some (JObj finalBody) else None)\<rparr>))"

text \<open>The case \<^verbatim>\<open>'n8n-webhook'\<close>: the call, the two awaits, and the response mapping.\<close>

definition webhook ::
    "(string \<Rightarrow> json option) \<Rightarrow> record_any \<Rightarrow> record_any \<Rightarrow> Action \<Rightarrow> world \<Rightarrow> outcome" where
  "webhook parse globalData context action w =
     (case build_request parse globalData context action of
        Inl e \<Rightarrow> Threw e w
      | Inr req \<Rightarrow>
          (let w1 = emit (Fetch req) w
           in case net w1 of
                [] \<Rightarrow> Pending w1
              | r # rs \<Rightarrow>
                  (let w2 = w1\<lparr>net := rs\<rparr>
                   in case r of
                        NetworkError \<Rightarrow> Threw FetchRejected w2
                      | InvalidJson \<Rightarrow> Threw JsonRejected w2
                      | JsonBody js \<Rightarrow>
                          (let w3 = emit (ResponseLog js) w2;
                               mapping = cfg (config action) ''responseMapping''
                           in if truthy mapping \<and> own_entries mapping \<noteq> []
                              then Completed (foldl (apply_mapping js) w3 (own_entries mapping))
                              else Completed (store_set ''lastResult'' js w3)))))"

text \<open>The \<^verbatim>\<open>switch\<close> inside the \<^verbatim>\<open>try\<close> block.\<close>

definition runAction ::
    "(string \<Rightarrow> json option) \<Rightarrow> record_any \<Rightarrow> record_any \<Rightarrow> Action \<Rightarrow> world \<Rightarrow> outcome" where
  "runAction parse globalData context action w =
     (case action_type action of
        ConsoleLog \<Rightarrow>
          (case evaluateExpression (cfg (config action) ''message'') context of
             Inl e \<Rightarrow> Threw e w
           | Inr message \<Rightarrow> Completed (emit (ActionLog message) w))
      | Alert \<Rightarrow>
          (case evaluateExpression (cfg (config action) ''message'') context of
             Inl e \<Rightarrow> Threw e w
           | Inr message \<Rightarrow> Completed (emit (AlertShown message) w))
      | SetState \<Rightarrow>
          (case evaluateExpression (cfg (config action) ''value'') context of
             Inl e \<Rightarrow> Threw e w
           | Inr v \<Rightarrow> Completed (store_set (js_String (cfg (config action) ''key'')) v w))
      | N8nWebhook \<Rightarrow> webhook parse globalData context action w)"

text \<open>The \<^verbatim>\<open>for\<close> loop. The flag of the result says whether the loop came to its end; it is
  \<open>False\<close> when an outbound call never settles, and the world is then the one at that call.\<close>

fun run_loop ::
    "(string \<Rightarrow> json option) \<Rightarrow> record_any \<Rightarrow> record_any \<Rightarrow> Action list \<Rightarrow> world \<Rightarrow> bool \<times> world" where
  "run_loop parse globalData context [] w = (True, w)"
| "run_loop parse globalData context (action # actions) w =
     (case runAction parse globalData context action (emit (Running action) w) of
        Completed w' \<Rightarrow> run_loop parse globalData context actions w'
      | Threw e w' \<Rightarrow> run_loop parse globalData context actions (emit (ErrorLog (action_type action) e) w')
      | Pending w' \<Rightarrow> (False, w'))"

text \<open>The function \<^verbatim>\<open>runActions(actions, localContext)\<close>; \<open>None\<close> is \<^verbatim>\<open>undefined\<close>.\<close>

definition runActions ::
    "(string \<Rightarrow> json option) \<Rightarrow> Action list option \<Rightarrow> record_any \<Rightarrow> world \<Rightarrow> bool \<times> world" where
  "runActions parse actions localContext w =
     (case actions of
        None \<Rightarrow> (True, w)
      | Some as \<Rightarrow>
          if as = [] then (True, w)
          else
            (let globalData = storeData (live w);
                 context = spread2 globalData localContext
             in run_loop parse globalData context as w))"

section \<open>Notions of the specification\<close>

subsection \<open>Trees\<close>

text \<open>The ids of a tree, in pre-order.\<close>

fun tree_ids :: "ComponentSchema \<Rightarrow> string list" where
  "tree_ids (ComponentSchema i t l p s e ch) =
     i # (case ch of None \<Rightarrow> [] | Some cs \<Rightarrow> concat (map tree_ids cs))"

text \<open>An index clamped into \<open>[0, n]\<close>.\<close>

definition clamped :: "int \<Rightarrow> nat \<Rightarrow> nat" where
  "clamped index n = (if index < 0 then 0 else if int n < index then n else nat index)"

text \<open>
  \<open>detached dragId d t t'\<close>: the tree \<open>t'\<close> is \<open>t\<close> without one child \<open>d\<close> of one of its nodes,
  where \<open>d\<close> has the id \<open>dragId\<close>; the later siblings move up, all else is as it was.
\<close>

inductive detached :: "string \<Rightarrow> ComponentSchema \<Rightarrow> ComponentSchema \<Rightarrow> ComponentSchema \<Rightarrow> bool" where
  detached_here:
    "children n = Some (xs @ d # ys) \<Longrightarrow> node_id d = dragId \<Longrightarrow>
     detached dragId d n (set_children n (Some (xs @ ys)))"
| detached_below:
    "children n = Some (xs @ c # ys) \<Longrightarrow> detached dragId d c c' \<Longrightarrow>
     detached dragId d n (set_children n (Some (xs @ c' # ys)))"

text \<open>
  \<open>attached targetId index d t t'\<close>: the tree \<open>t'\<close> is \<open>t\<close> with \<open>d\<close> as one more child of a
  node whose id is \<open>targetId\<close>, at the index clamped into the number of children that node
  had; a node without a children list counts as having none.
\<close>

inductive attached :: "string \<Rightarrow> int \<Rightarrow> ComponentSchema \<Rightarrow> ComponentSchema \<Rightarrow> ComponentSchema \<Rightarrow> bool" where
  attached_here:
    "node_id n = targetId \<Longrightarrow> cs = (case children n of None \<Rightarrow> [] | Some cs \<Rightarrow> cs) \<Longrightarrow>
     k = clamped index (length cs) \<Longrightarrow>
     attached targetId index d n (set_children n (Some (take k cs @ d # drop k cs)))"
| attached_below:
    "children n = Some (xs @ c # ys) \<Longrightarrow> attached targetId index d c c' \<Longrightarrow>
     attached targetId index d n (set_children n (Some (xs @ c' # ys)))"

text \<open>
  \<open>replaced p q t t'\<close>: the tree \<open>t'\<close> is \<open>t\<close> with one occurrence of the subtree \<open>p\<close> replaced
  by \<open>q\<close>.
\<close>

inductive replaced :: "ComponentSchema \<Rightarrow> ComponentSchema \<Rightarrow> ComponentSchema \<Rightarrow> ComponentSchema \<Rightarrow> bool" where
  replaced_here: "replaced p q p q"
| replaced_below:
    "children n = Some (xs @ c # ys) \<Longrightarrow> replaced p q c c' \<Longrightarrow>
     replaced p q n (set_children n (Some (xs @ c' # ys)))"

text \<open>The leaf kinds of the specification; the others are the container kinds.\<close>

fun is_leaf_kind :: "ComponentType \<Rightarrow> bool" where
  "is_leaf_kind Page = False"
| "is_leaf_kind Container = False"
| "is_leaf_kind Row = False"
| "is_leaf_kind Column = False"
| "is_leaf_kind Input = True"
| "is_leaf_kind Button = True"
| "is_leaf_kind Text = True"
| "is_leaf_kind Image = True"
| "is_leaf_kind Table = True"
| "is_leaf_kind Select = True"

text \<open>Leaf shape: no node of a leaf kind has a children list.\<close>

fun leaf_shape :: "ComponentSchema \<Rightarrow> bool" where
  "leaf_shape (ComponentSchema i t l p s e ch) =
     ((is_leaf_kind t \<longrightarrow> ch = None)
      \<and> (case ch of None \<Rightarrow> True | Some cs \<Rightarrow> \<forall>c \<in> set cs. leaf_shape c))"

text \<open>A sequence of \<^verbatim>\<open>addComponent\<close> calls, each with its parent, its type and the value of
  \<^verbatim>\<open>Date.now()\<close> at the call, and the id that a call gives to its new component.\<close>

fun addComponents :: "(string \<times> ComponentType \<times> int) list \<Rightarrow> EditorState \<Rightarrow> EditorState" where
  "addComponents [] st = st"
| "addComponents ((parentId, t, now) # calls) st = addComponents calls (addComponent parentId t now st)"

fun new_id :: "string \<times> ComponentType \<times> int \<Rightarrow> string" where
  "new_id (parentId, t, now) = type_name t @ ''_'' @ string_of_int now"

subsection \<open>Runs of actions\<close>

text \<open>The actions that a trace shows as started, in order.\<close>

fun started :: "event list \<Rightarrow> Action list" where
  "started [] = []"
| "started (Running a # es) = a # started es"
| "started (e # es) = started es"

text \<open>The world that the body of a \<^verbatim>\<open>try\<close> block leaves.\<close>

fun world_of :: "outcome \<Rightarrow> world" where
  "world_of (Completed w) = w"
| "world_of (Threw e w) = w"
| "world_of (Pending w) = w"

definition is_webhook :: "Action \<Rightarrow> bool" where
  "is_webhook a = (action_type a = N8nWebhook)"

text \<open>
  A request carries the snapshot: with the method \<^verbatim>\<open>GET\<close> it has no body, and otherwise its
  body is an object whose field \<^verbatim>\<open>context\<close> is the given data context.
\<close>

definition carries_snapshot :: "record_any \<Rightarrow> request \<Rightarrow> bool" where
  "carries_snapshot globalData r =
     (if req_method r = JStr ''GET'' then req_body r = None
      else \<exists>b. req_body r = Some (JObj b) \<and> map_of b ''context'' = Some (JObj globalData))"

text \<open>
  A run is stuck: its events end with the request of a webhook of the list, the actions
  up to that webhook are started, and none after it.
\<close>

definition stuck_on ::
    "(string \<Rightarrow> json option) \<Rightarrow> record_any \<Rightarrow> record_any \<Rightarrow> Action list \<Rightarrow> event list \<Rightarrow> bool" where
  "stuck_on parse gd ctx as evs =
     (\<exists>pre a post r. as = pre @ a # post \<and> is_webhook a \<and> started evs = pre @ [a]
        \<and> build_request parse gd ctx a = Inr r \<and> evs \<noteq> [] \<and> last evs = Fetch r)"

subsection \<open>Examples\<close>

text \<open>Small trees, a state and updates.\<close>

definition leaf :: "string \<Rightarrow> ComponentType \<Rightarrow> ComponentSchema" where
  "leaf i t = ComponentSchema i t None [] None None None"

definition box :: "string \<Rightarrow> ComponentType \<Rightarrow> ComponentSchema list \<Rightarrow> ComponentSchema" where
  "box i t cs = ComponentSchema i t None [] None None (Some cs)"

definition demo_state :: EditorState where
  "demo_state =
     \<lparr>root = box ''root'' Page [box ''a'' Container [leaf ''b'' Button], leaf ''c'' Text],
      selectedId = Some ''c'',
      storeData = []\<rparr>"

definition demo_updates :: updates where
  "demo_updates =
     \<lparr>u_id = None, u_type = None, u_label = Some (Some ''OK''), u_props = None,
      u_style = None, u_events = None, u_children = None\<rparr>"

text \<open>Actions, and a world with a given data context and given responses.\<close>

definition set_k :: "string \<Rightarrow> Action" where
  "set_k v = \<lparr>action_id = ''a1'', action_type = SetState, config = [(''key'', JStr ''k''), (''value'', JStr v)]\<rparr>"

definition hook :: "record_any \<Rightarrow> Action" where
  "hook c = \<lparr>action_id = ''a2'', action_type = N8nWebhook, config = (''url'', JStr ''http://n8n/hook'') # c\<rparr>"


definition log_k :: Action where
  "log_k = \<lparr>action_id = ''a3'', action_type = ConsoleLog, config = [(''message'', JStr ''{{ k }}'')]\<rparr>"

definition log_bad :: Action where
  "log_bad = \<lparr>action_id = ''a4'', action_type = ConsoleLog, config = [(''message'', JStr ''k is {{ k }}'')]\<rparr>"

definition demo_world :: "record_any \<Rightarrow> response list \<Rightarrow> world" where
  "demo_world d rs = \<lparr>live = \<lparr>root = initialRoot, selectedId = None, storeData = d\<rparr>, net = rs, trace = []\<rparr>"

section \<open>Removal and insertion\<close>

lemma findIndex_Some:
  "findIndex p xs = Some i \<Longrightarrow> i < length xs \<and> p (xs ! i)"
  by (induction xs arbitrary: i) (auto split: if_splits)

lemma removeNode_detached:
  "(removeNode dragId n = Some (n', d) \<longrightarrow> detached dragId d n n')"
  "(removeNode_children dragId cs = Some (cs', d) \<longrightarrow>
     (\<exists>xs c c' ys. cs = xs @ c # ys \<and> cs' = xs @ c' # ys \<and> detached dragId d c c'))"
proof (induction dragId n and dragId cs arbitrary: n' d and cs' d rule: removeNode_removeNode_children.induct)
  case (1 dragId i t l p s e ch)
  show ?case
  proof
    assume a: "removeNode dragId (ComponentSchema i t l p s e ch) = Some (n', d)"
    then obtain cs where ch: "ch = Some cs" by (cases ch) auto
    show "detached dragId d (ComponentSchema i t l p s e ch) n'"
    proof (cases "findIndex (\<lambda>c. node_id c = dragId) cs")
      case (Some idx)
      with a ch have n': "n' = ComponentSchema i t l p s e (Some (splice_out idx cs))" and d: "d = cs ! idx"
        by auto
      from Some have lt: "idx < length cs" and idd: "node_id (cs ! idx) = dragId"
        using findIndex_Some[of "\<lambda>c. node_id c = dragId" cs idx] by auto
      from lt have cs: "cs = take idx cs @ (cs ! idx) # drop (Suc idx) cs"
        by (simp add: id_take_nth_drop)
      have "detached dragId (cs ! idx) (ComponentSchema i t l p s e ch)
              (set_children (ComponentSchema i t l p s e ch) (Some (take idx cs @ drop (Suc idx) cs)))"
        apply (rule detached_here)
        using ch cs apply simp
        using idd apply simp
        done
      then show ?thesis by (simp add: n' d set_children_def splice_out_def)
    next
      case None
      with a ch obtain cs' where r: "removeNode_children dragId cs = Some (cs', d)"
        and n': "n' = ComponentSchema i t l p s e (Some cs')"
        by (auto split: option.splits)
      from "1.IH"[OF ch None] r obtain xs c c' ys where
        "cs = xs @ c # ys" "cs' = xs @ c' # ys" "detached dragId d c c'" by blast
      then have "detached dragId d (ComponentSchema i t l p s e ch)
              (set_children (ComponentSchema i t l p s e ch) (Some (xs @ c' # ys)))"
        using ch by (intro detached_below[where c=c]) auto
      then show ?thesis using \<open>cs' = xs @ c' # ys\<close> by (simp add: n' set_children_def)
    qed
  qed
next
  case (2 dragId)
  then show ?case by simp
next
  case (3 dragId c cs)
  show ?case
  proof
    assume a: "removeNode_children dragId (c # cs) = Some (cs', d)"
    show "\<exists>xs ca c' ys. c # cs = xs @ ca # ys \<and> cs' = xs @ c' # ys \<and> detached dragId d ca c'"
    proof (cases "removeNode dragId c")
      case (Some r)
      with a have "r = (fst r, d)" "cs' = fst r # cs" by (auto split: prod.splits)
      with Some "3.IH"(1)[of "fst r" d] have "detached dragId d c (fst r)" by simp
      then show ?thesis using \<open>cs' = fst r # cs\<close> by (intro exI[of _ "[]"] exI[of _ c] exI[of _ "fst r"] exI[of _ cs]) simp
    next
      case None
      with a obtain cs2 where r: "removeNode_children dragId cs = Some (cs2, d)" and c2: "cs' = c # cs2"
        by (auto split: option.splits)
      from "3.IH"(2)[OF None] r obtain xs ca c' ys where
        "cs = xs @ ca # ys" "cs2 = xs @ c' # ys" "detached dragId d ca c'" by blast
      then show ?thesis using c2
        by (intro exI[of _ "c # xs"] exI[of _ ca] exI[of _ c'] exI[of _ ys]) simp
    qed
  qed
qed

lemma safeIndex_clamped: "safeIndex index n = clamped index n"
  by (auto simp: safeIndex_def clamped_def)

lemma insertNode_attached:
  "(insertNode targetId index d n = Some n' \<longrightarrow> attached targetId index d n n')"
  "(insertNode_children targetId index d cs = Some cs' \<longrightarrow>
     (\<exists>xs c c' ys. cs = xs @ c # ys \<and> cs' = xs @ c' # ys \<and> attached targetId index d c c'))"
proof (induction targetId index d n and targetId index d cs arbitrary: n' and cs'
    rule: insertNode_insertNode_children.induct)
  case (1 targetId index d i t l p s e ch)
  let ?n = "ComponentSchema i t l p s e ch"
  show ?case
  proof
    assume a: "insertNode targetId index d ?n = Some n'"
    show "attached targetId index d ?n n'"
    proof (cases "i = targetId")
      case True
      with a have n': "n' = insert_here index d ?n" by simp
      have "attached targetId index d ?n
              (set_children ?n (Some (take (clamped index (length (case children ?n of None \<Rightarrow> [] | Some cs \<Rightarrow> cs)))
                    (case children ?n of None \<Rightarrow> [] | Some cs \<Rightarrow> cs) @ d #
                  drop (clamped index (length (case children ?n of None \<Rightarrow> [] | Some cs \<Rightarrow> cs)))
                    (case children ?n of None \<Rightarrow> [] | Some cs \<Rightarrow> cs))))"
        by (rule attached_here) (use True in simp_all)
      then show ?thesis
        by (simp add: n' insert_here_def splice_in_def safeIndex_clamped Let_def)
    next
      case False
      with a obtain cs where ch: "ch = Some cs" by (cases ch) auto
      with a False obtain cs' where r: "insertNode_children targetId index d cs = Some cs'"
        and n': "n' = ComponentSchema i t l p s e (Some cs')"
        by (auto split: option.splits)
      from "1.IH"[OF False ch] r obtain xs c c' ys where
        "cs = xs @ c # ys" "cs' = xs @ c' # ys" "attached targetId index d c c'" by blast
      then have "attached targetId index d ?n (set_children ?n (Some (xs @ c' # ys)))"
        using ch by (intro attached_below[where c=c]) auto
      then show ?thesis using \<open>cs' = xs @ c' # ys\<close> by (simp add: n' set_children_def)
    qed
  qed
next
  case (2 targetId index d)
  then show ?case by simp
next
  case (3 targetId index d c cs)
  show ?case
  proof
    assume a: "insertNode_children targetId index d (c # cs) = Some cs'"
    show "\<exists>xs ca c' ys. c # cs = xs @ ca # ys \<and> cs' = xs @ c' # ys \<and> attached targetId index d ca c'"
    proof (cases "insertNode targetId index d c")
      case (Some r)
      with a have c2: "cs' = r # cs" by auto
      from Some "3.IH"(1)[of r] have "attached targetId index d c r" by simp
      then show ?thesis using c2
        by (intro exI[of _ "[]"] exI[of _ c] exI[of _ r] exI[of _ cs]) simp
    next
      case None
      with a obtain cs2 where r: "insertNode_children targetId index d cs = Some cs2" and c2: "cs' = c # cs2"
        by (auto split: option.splits)
      from "3.IH"(2)[OF None] r obtain xs ca c' ys where
        "cs = xs @ ca # ys" "cs2 = xs @ c' # ys" "attached targetId index d ca c'" by blast
      then show ?thesis using c2
        by (intro exI[of _ "c # xs"] exI[of _ ca] exI[of _ c'] exI[of _ ys]) simp
    qed
  qed
qed

lemma tree_ids_unfold:
  "tree_ids n = node_id n # (case children n of None \<Rightarrow> [] | Some cs \<Rightarrow> concat (map tree_ids cs))"
  by (cases n) simp

lemma tree_ids_set_children:
  "tree_ids (set_children n ch) = node_id n # (case ch of None \<Rightarrow> [] | Some cs \<Rightarrow> concat (map tree_ids cs))"
  by (simp add: set_children_def)

lemma detached_ids:
  "detached dragId d n n' \<Longrightarrow> mset (tree_ids n) = mset (tree_ids n') + mset (tree_ids d)"
proof (induction rule: detached.induct)
  case (detached_here n xs d ys dragId)
  then show ?case by (simp add: tree_ids_unfold[of n] tree_ids_set_children)
next
  case (detached_below n xs c ys dragId d c')
  then show ?case by (simp add: tree_ids_unfold[of n] tree_ids_set_children)
qed

lemma attached_ids:
  "attached targetId index d n n' \<Longrightarrow> mset (tree_ids n') = mset (tree_ids n) + mset (tree_ids d)"
proof (induction rule: attached.induct)
  case (attached_here n targetId cs k index d)
  have "mset (concat (map tree_ids (take k cs))) + mset (concat (map tree_ids (drop k cs)))
        = mset (concat (map tree_ids cs))"
    by (metis append_take_drop_id concat_append map_append mset_append)
  then show ?case using attached_here
    by (simp add: tree_ids_unfold[of n] tree_ids_set_children split: option.splits)
next
  case (attached_below n xs c ys targetId index d c')
  then show ?case by (simp add: tree_ids_unfold[of n] tree_ids_set_children)
qed

section \<open>Facts about the search helpers\<close>

lemma set_child_eq:
  "children n = Some (pre @ c # rest) \<Longrightarrow> set_child n (length pre) c' = set_children n (Some (pre @ c' # rest))"
  by (simp add: set_child_def)

lemma splice_out_mid: "splice_out (length pre) (pre @ c # rest) = pre @ rest"
  by (simp add: splice_out_def)

lemma findNode_self: "findNode n (node_id n) = Some n"
  by (cases n) simp

lemma findNode_unfold:
  "findNode n ident =
     (if node_id n = ident then Some n
      else case children n of None \<Rightarrow> None | Some cs \<Rightarrow> findNode_children cs ident)"
  by (cases n) simp

lemma findAndModify_unfold:
  "findAndModify n targetId cb parent index =
     (if node_id n = targetId then Some (cb n parent index)
      else case children n of
             None \<Rightarrow> None
           | Some cs \<Rightarrow> map_option TouchedNode (findAndModify_children n cs 0 targetId cb))"
  by (cases n) (auto split: option.splits)

lemma findNode_None_iff:
  "(findNode n ident = None) = (ident \<notin> set (tree_ids n))"
  "(findNode_children cs ident = None) = (ident \<notin> set (concat (map tree_ids cs)))"
  by (induction n ident and cs ident rule: findNode_findNode_children.induct)
     (auto split: option.splits)

section \<open>Deleting a component\<close>

lemma delete_search:
  "cb = delete_callback \<longrightarrow> node_id n \<noteq> ident \<longrightarrow>
     (case findNode n ident of
        None \<Rightarrow> findAndModify n ident cb parent index = None
      | Some d \<Rightarrow> \<exists>n'. findAndModify n ident cb parent index = Some (TouchedNode n') \<and> detached ident d n n')"
  "cb = delete_callback \<longrightarrow> (\<forall>pre. children node = Some (pre @ rest) \<longrightarrow> length pre = k \<longrightarrow>
     (case findNode_children rest ident of
        None \<Rightarrow> findAndModify_children node rest k ident cb = None
      | Some d \<Rightarrow> \<exists>node'. findAndModify_children node rest k ident cb = Some node' \<and> detached ident d node node'))"
proof (induction n ident cb parent index and node rest k ident cb
    rule: findAndModify_findAndModify_children.induct)
  case (1 i t l p s e ch targetId cb parent index)
  let ?n = "ComponentSchema i t l p s e ch"
  show ?case
  proof (intro impI)
    assume cb: "cb = delete_callback" and ne: "node_id ?n \<noteq> targetId"
    show "case findNode ?n targetId of
        None \<Rightarrow> findAndModify ?n targetId cb parent index = None
      | Some d \<Rightarrow> \<exists>n'. findAndModify ?n targetId cb parent index = Some (TouchedNode n') \<and> detached targetId d ?n n'"
    proof (cases ch)
      case None
      with ne show ?thesis by simp
    next
      case (Some cs)
      from ne have ne': "i \<noteq> targetId" by simp
      from "1.IH"[OF ne' Some] cb Some
      have "case findNode_children cs targetId of
        None \<Rightarrow> findAndModify_children ?n cs 0 targetId cb = None
      | Some d \<Rightarrow> \<exists>node'. findAndModify_children ?n cs 0 targetId cb = Some node' \<and> detached targetId d ?n node'"
        by simp
      with ne' Some show ?thesis by (auto split: option.splits)
    qed
  qed
next
  case (2 node k targetId cb)
  then show ?case by simp
next
  case (3 node c rest k targetId cb)
  show ?case
  proof (intro impI allI)
    fix pre
    assume cb: "cb = delete_callback" and ch: "children node = Some (pre @ c # rest)" and k: "length pre = k"
    show "case findNode_children (c # rest) targetId of
        None \<Rightarrow> findAndModify_children node (c # rest) k targetId cb = None
      | Some d \<Rightarrow> \<exists>node'. findAndModify_children node (c # rest) k targetId cb = Some node' \<and> detached targetId d node node'"
    proof (cases "node_id c = targetId")
      case True
      have f: "findAndModify c targetId cb (Some node) k = Some (TouchedParent (set_children node (Some (pre @ rest))))"
        using True cb ch k splice_out_mid[of pre c rest]
        by (auto simp: findAndModify_unfold delete_callback_def)
      have "detached targetId c node (set_children node (Some (pre @ rest)))"
        using ch True by (rule detached_here)
      with f True show ?thesis by (simp add: findNode_unfold)
    next
      case False
      show ?thesis
      proof (cases "findNode c targetId")
        case None
        with "3.IH"(1) cb False have n: "findAndModify c targetId cb (Some node) k = None" by simp
        from ch have "children node = Some ((pre @ [c]) @ rest)" by simp
        with "3.IH"(2)[OF n] cb k
        have "case findNode_children rest targetId of
            None \<Rightarrow> findAndModify_children node rest (Suc k) targetId cb = None
          | Some d \<Rightarrow> \<exists>node'. findAndModify_children node rest (Suc k) targetId cb = Some node' \<and> detached targetId d node node'"
          by (metis length_append_singleton)
        with n None show ?thesis by (auto split: option.splits)
      next
        case (Some d)
        with "3.IH"(1) cb False obtain c' where
          f: "findAndModify c targetId cb (Some node) k = Some (TouchedNode c')" and d: "detached targetId d c c'"
          by auto
        have "detached targetId d node (set_children node (Some (pre @ c' # rest)))"
          using ch d by (rule detached_below)
        with f Some ch k show ?thesis by (auto simp: set_child_eq)
      qed
    qed
  qed
qed

lemma modified_root_delete:
  "case findNode r ident of
     None \<Rightarrow> modified_root r ident delete_callback = r
   | Some d \<Rightarrow> if node_id r = ident then modified_root r ident delete_callback = r
              else detached ident d r (modified_root r ident delete_callback)"
proof (cases "node_id r = ident")
  case True
  then show ?thesis
    by (simp add: modified_root_def findAndModify_unfold findNode_unfold delete_callback_def)
next
  case False
  with delete_search(1)[of delete_callback r ident None 0] show ?thesis
    by (auto simp: modified_root_def split: option.splits)
qed

text \<open>
  Claim C7, as the code has it. \<^verbatim>\<open>deleteComponent(id)\<close> returns the state as it is only for
  the id \<^verbatim>\<open>'root'\<close>. For every other id the selection becomes \<^verbatim>\<open>null\<close>, whatever was selected
  and whether or not the id is in the tree, and the data context stays. The tree is as
  before when no node has the id or when the root node has it; otherwise the first node
  with the id in pre-order is detached, with its subtree, from the children list of its
  parent, and the later siblings move up.
\<close>

theorem deleteComponent_effect:
  "(ident = ''root'' \<longrightarrow> deleteComponent ident st = st)
   \<and> (ident \<noteq> ''root'' \<longrightarrow>
        selectedId (deleteComponent ident st) = None
      \<and> storeData (deleteComponent ident st) = storeData st
      \<and> (case findNode (root st) ident of
            None \<Rightarrow> root (deleteComponent ident st) = root st
          | Some d \<Rightarrow>
              if node_id (root st) = ident then root (deleteComponent ident st) = root st
              else detached ident d (root st) (root (deleteComponent ident st))))"
  using modified_root_delete[of "root st" ident]
  by (auto simp: deleteComponent_def split: option.splits)

theorem deleteComponent_effect_witness:
  "selectedId (deleteComponent ''b'' demo_state) = None
   \<and> storeData (deleteComponent ''b'' demo_state) = storeData demo_state
   \<and> detached ''b'' (leaf ''b'' Button) (root demo_state) (root (deleteComponent ''b'' demo_state))
   \<and> root (deleteComponent ''b'' demo_state) = box ''root'' Page [box ''a'' Container [], leaf ''c'' Text]"
proof -
  have f: "findNode (root demo_state) ''b'' = Some (leaf ''b'' Button)"
    by code_simp
  have n: "node_id (root demo_state) \<noteq> ''b''"
    by (simp add: demo_state_def box_def)
  have r: "root (deleteComponent ''b'' demo_state) = box ''root'' Page [box ''a'' Container [], leaf ''c'' Text]"
    by code_simp
  from deleteComponent_effect [of "''b''" demo_state] f n r show ?thesis
    by simp
qed

text \<open>
  The claim as stated fails: with \<^verbatim>\<open>c\<close> selected, deleting \<^verbatim>\<open>b\<close>, or an id that is not in the
  tree, clears the selection.
\<close>

theorem deleteComponent_clears_selection:
  "selectedId demo_state = Some ''c''
   \<and> selectedId (deleteComponent ''b'' demo_state) = None
   \<and> findNode (root demo_state) ''nowhere'' = None
   \<and> selectedId (deleteComponent ''nowhere'' demo_state) = None"
  by (intro conjI; code_simp)

section \<open>The node that a search reaches\<close>

lemma node_search:
  "cb = (\<lambda>node parent index. TouchedNode (f node)) \<longrightarrow>
     (case findNode n ident of
        None \<Rightarrow> findAndModify n ident cb parent index = None
      | Some p \<Rightarrow> \<exists>n'. findAndModify n ident cb parent index = Some (TouchedNode n') \<and> replaced p (f p) n n')"
  "cb = (\<lambda>node parent index. TouchedNode (f node)) \<longrightarrow>
     (\<forall>pre. children node = Some (pre @ rest) \<longrightarrow> length pre = k \<longrightarrow>
     (case findNode_children rest ident of
        None \<Rightarrow> findAndModify_children node rest k ident cb = None
      | Some p \<Rightarrow> \<exists>node'. findAndModify_children node rest k ident cb = Some node' \<and> replaced p (f p) node node'))"
proof (induction n ident cb parent index and node rest k ident cb
    rule: findAndModify_findAndModify_children.induct)
  case (1 i t l p s e ch targetId cb parent index)
  let ?n = "ComponentSchema i t l p s e ch"
  show ?case
  proof (intro impI)
    assume cb: "cb = (\<lambda>node parent index. TouchedNode (f node))"
    show "case findNode ?n targetId of
        None \<Rightarrow> findAndModify ?n targetId cb parent index = None
      | Some p \<Rightarrow> \<exists>n'. findAndModify ?n targetId cb parent index = Some (TouchedNode n') \<and> replaced p (f p) ?n n'"
    proof (cases "i = targetId")
      case True
      then show ?thesis using cb by (simp add: replaced_here)
    next
      case False
      show ?thesis
      proof (cases ch)
        case None
        with False show ?thesis by simp
      next
        case (Some cs)
        from "1.IH"[OF False Some] cb Some
        have "case findNode_children cs targetId of
          None \<Rightarrow> findAndModify_children ?n cs 0 targetId cb = None
        | Some p \<Rightarrow> \<exists>node'. findAndModify_children ?n cs 0 targetId cb = Some node' \<and> replaced p (f p) ?n node'"
          by simp
        with False Some show ?thesis by (auto split: option.splits)
      qed
    qed
  qed
next
  case (2 node k targetId cb)
  then show ?case by simp
next
  case (3 node c rest k targetId cb)
  show ?case
  proof (intro impI allI)
    fix pre
    assume cb: "cb = (\<lambda>node parent index. TouchedNode (f node))"
      and ch: "children node = Some (pre @ c # rest)" and k: "length pre = k"
    show "case findNode_children (c # rest) targetId of
        None \<Rightarrow> findAndModify_children node (c # rest) k targetId cb = None
      | Some p \<Rightarrow> \<exists>node'. findAndModify_children node (c # rest) k targetId cb = Some node' \<and> replaced p (f p) node node'"
    proof (cases "findNode c targetId")
      case None
      with "3.IH"(1) cb have n: "findAndModify c targetId cb (Some node) k = None" by simp
      from ch have "children node = Some ((pre @ [c]) @ rest)" by simp
      with "3.IH"(2)[OF n] cb k
      have "case findNode_children rest targetId of
          None \<Rightarrow> findAndModify_children node rest (Suc k) targetId cb = None
        | Some p \<Rightarrow> \<exists>node'. findAndModify_children node rest (Suc k) targetId cb = Some node' \<and> replaced p (f p) node node'"
        by (metis length_append_singleton)
      with n None show ?thesis by (auto split: option.splits)
    next
      case (Some p)
      with "3.IH"(1) cb obtain c' where
        f: "findAndModify c targetId cb (Some node) k = Some (TouchedNode c')" and d: "replaced p (f p) c c'"
        by auto
      have "replaced p (f p) node (set_children node (Some (pre @ c' # rest)))"
        using ch d by (rule replaced_below)
      with f Some ch k show ?thesis by (auto simp: set_child_eq)
    qed
  qed
qed

lemma modified_root_node:
  "case findNode r ident of
     None \<Rightarrow> modified_root r ident (\<lambda>node parent index. TouchedNode (f node)) = r
   | Some p \<Rightarrow> replaced p (f p) r (modified_root r ident (\<lambda>node parent index. TouchedNode (f node)))"
  using node_search(1)[of "\<lambda>node parent index. TouchedNode (f node)" f r ident None 0]
  by (auto simp: modified_root_def split: option.splits)

lemma insertNode_search:
  "(case findNode n targetId of
      None \<Rightarrow> insertNode targetId index d n = None
    | Some p \<Rightarrow> \<exists>n'. insertNode targetId index d n = Some n' \<and> replaced p (insert_here index d p) n n')"
  "(case findNode_children cs targetId of
      None \<Rightarrow> insertNode_children targetId index d cs = None
    | Some p \<Rightarrow> \<exists>xs c c' ys. cs = xs @ c # ys \<and> insertNode_children targetId index d cs = Some (xs @ c' # ys)
                    \<and> replaced p (insert_here index d p) c c')"
proof (induction targetId index d n and targetId index d cs
    rule: insertNode_insertNode_children.induct)
  case (1 targetId index d i t l p s e ch)
  let ?n = "ComponentSchema i t l p s e ch"
  show ?case
  proof (cases "i = targetId")
    case True
    then show ?thesis by (simp add: replaced_here)
  next
    case False
    show ?thesis
    proof (cases ch)
      case None
      with False show ?thesis by simp
    next
      case (Some cs)
      show ?thesis
      proof (cases "findNode_children cs targetId")
        case None
        with "1.IH"[OF False Some] False Some show ?thesis by simp
      next
        case (Some q)
        with "1.IH"[OF False \<open>ch = Some cs\<close>] obtain xs c c' ys where
          x: "cs = xs @ c # ys" "insertNode_children targetId index d cs = Some (xs @ c' # ys)"
             "replaced q (insert_here index d q) c c'" by auto
        have "replaced q (insert_here index d q) ?n (set_children ?n (Some (xs @ c' # ys)))"
          using x \<open>ch = Some cs\<close> by (intro replaced_below[where c=c]) auto
        with False Some \<open>ch = Some cs\<close> x show ?thesis by (simp add: set_children_def)
      qed
    qed
  qed
next
  case (2 targetId index d)
  then show ?case by simp
next
  case (3 targetId index d c cs)
  show ?case
  proof (cases "findNode c targetId")
    case None
    with "3.IH"(1) have n: "insertNode targetId index d c = None" by simp
    show ?thesis
    proof (cases "findNode_children cs targetId")
      case None
      with "3.IH"(2)[OF n] n \<open>findNode c targetId = None\<close> show ?thesis by simp
    next
      case (Some q)
      with "3.IH"(2)[OF n] obtain xs ca c' ys where
        x: "cs = xs @ ca # ys" "insertNode_children targetId index d cs = Some (xs @ c' # ys)"
           "replaced q (insert_here index d q) ca c'" by auto
      have i: "insertNode_children targetId index d (c # cs) = Some ((c # xs) @ c' # ys)"
        by (simp add: n x(2))
      have e: "c # cs = (c # xs) @ ca # ys"
        by (simp add: x(1))
      have f: "findNode_children (c # cs) targetId = Some q"
        by (simp add: None Some)
      show ?thesis unfolding f option.case using e i x(3) by blast
    qed
  next
    case (Some q)
    with "3.IH"(1) obtain c' where
      x: "insertNode targetId index d c = Some c'" "replaced q (insert_here index d q) c c'" by auto
    have i: "insertNode_children targetId index d (c # cs) = Some ([] @ c' # cs)"
      by (simp add: x(1))
    have e: "c # cs = [] @ c # cs"
      by simp
    have f: "findNode_children (c # cs) targetId = Some q"
      by (simp add: Some)
    show ?thesis unfolding f option.case using e i x(2) by blast
  qed
qed

lemma findNode_found:
  "findNode n ident = Some p \<longrightarrow> node_id p = ident"
  "findNode_children cs ident = Some p \<longrightarrow> node_id p = ident"
  by (induction n ident and cs ident rule: findNode_findNode_children.induct)
     (auto split: option.splits if_splits)

lemma replaced_ids:
  "replaced p q n n' \<Longrightarrow> mset (tree_ids n') + mset (tree_ids p) = mset (tree_ids n) + mset (tree_ids q)"
proof (induction rule: replaced.induct)
  case (replaced_here p q)
  then show ?case by simp
next
  case (replaced_below n xs c ys p q c')
  then show ?case by (simp add: tree_ids_unfold[of n] tree_ids_set_children)
qed

lemma addComponent_root:
  "root (addComponent parentId t now st) =
     (if parentId = ''root'' then push_child (newComponent t now) (root st)
      else modified_root (root st) parentId (\<lambda>node parent index. TouchedNode (push_child (newComponent t now) node)))"
  by (simp add: addComponent_def Let_def)

section \<open>Leaf kinds and children lists\<close>

lemma leaf_shape_unfold:
  "leaf_shape n =
     ((is_leaf_kind (node_type n) \<longrightarrow> children n = None)
      \<and> (case children n of None \<Rightarrow> True | Some cs \<Rightarrow> \<forall>c \<in> set cs. leaf_shape c))"
  by (cases n) simp

lemma leaf_shape_set_children:
  "leaf_shape (set_children n (Some cs)) = (\<not> is_leaf_kind (node_type n) \<and> (\<forall>c \<in> set cs. leaf_shape c))"
  by (simp add: set_children_def)

lemma leaf_shape_set_child:
  "leaf_shape n \<Longrightarrow> leaf_shape c \<Longrightarrow> leaf_shape (set_child n k c)"
proof (cases "children n")
  case None
  assume "leaf_shape n"
  moreover have "set_child n k c = n" using None by (cases n) (simp add: set_child_def set_children_def)
  ultimately show ?thesis by simp
next
  case (Some cs)
  assume n: "leaf_shape n" and c: "leaf_shape c"
  from n Some have a: "\<not> is_leaf_kind (node_type n)" "\<forall>x \<in> set cs. leaf_shape x"
    by (auto simp: leaf_shape_unfold[of n])
  have "\<forall>x \<in> set (cs[k := c]). leaf_shape x"
    using a(2) c set_update_subset_insert[of cs k c] by auto
  with a(1) Some show ?thesis by (simp add: set_child_def leaf_shape_set_children)
qed

lemma replaced_leaf_shape:
  "replaced p q n n' \<Longrightarrow> leaf_shape n \<Longrightarrow> (leaf_shape p \<Longrightarrow> leaf_shape q) \<Longrightarrow> leaf_shape n'"
proof (induction rule: replaced.induct)
  case (replaced_here p q)
  then show ?case by simp
next
  case (replaced_below n xs c ys p q c')
  from replaced_below.prems(1) replaced_below.hyps(1)
  have a: "\<not> is_leaf_kind (node_type n)" "\<forall>x \<in> set (xs @ c # ys). leaf_shape x"
    by (auto simp: leaf_shape_unfold[of n])
  then have "leaf_shape c" by simp
  then have "leaf_shape c'" using replaced_below.IH replaced_below.prems(2) by blast
  with a show ?case by (simp add: leaf_shape_set_children)
qed

lemma detached_leaf_shape:
  "detached dragId d n n' \<Longrightarrow> leaf_shape n \<Longrightarrow> leaf_shape n' \<and> leaf_shape d"
proof (induction rule: detached.induct)
  case (detached_here n xs d ys dragId)
  then have "\<not> is_leaf_kind (node_type n)" "\<forall>x \<in> set (xs @ d # ys). leaf_shape x"
    by (auto simp: leaf_shape_unfold[of n])
  then show ?case by (simp add: leaf_shape_set_children)
next
  case (detached_below n xs c ys dragId d c')
  from detached_below.prems detached_below.hyps(1)
  have a: "\<not> is_leaf_kind (node_type n)" "\<forall>x \<in> set (xs @ c # ys). leaf_shape x"
    by (auto simp: leaf_shape_unfold[of n])
  then have "leaf_shape c" by simp
  then have "leaf_shape c' \<and> leaf_shape d" using detached_below.IH by blast
  with a show ?case by (simp add: leaf_shape_set_children)
qed

lemma move_callback_leaf_shape:
  assumes p: "leaf_shape p" and ch: "children p = Some cs" and i: "index < length cs"
  shows "\<exists>p'. move_callback dir node (Some p) index = TouchedParent p' \<and> leaf_shape p'"
proof -
  from p ch have a: "\<not> is_leaf_kind (node_type p)" "\<forall>x \<in> set cs. leaf_shape x"
    by (auto simp: leaf_shape_unfold[of p])
  define j where "j = (if dir = Up then int index - 1 else int index + 1)"
  show ?thesis
  proof (cases "0 \<le> j \<and> j < int (length cs)")
    case False
    then have "move_callback dir node (Some p) index = TouchedParent p"
      using ch by (auto simp: move_callback_def Let_def j_def)
    with p show ?thesis by simp
  next
    case True
    then have m: "move_callback dir node (Some p) index
        = TouchedParent (set_children p (Some (cs[index := cs ! nat j, nat j := cs ! index])))"
      using ch by (auto simp: move_callback_def Let_def j_def)
    have "set (cs[index := cs ! nat j, nat j := cs ! index])
            \<subseteq> insert (cs ! index) (insert (cs ! nat j) (set cs))"
      using set_update_subset_insert[of "cs[index := cs ! nat j]" "nat j" "cs ! index"]
            set_update_subset_insert[of cs index "cs ! nat j"] by auto
    moreover have "nat j < length cs" using True by linarith
    then have "cs ! nat j \<in> set cs" by simp
    moreover have "cs ! index \<in> set cs" using i by simp
    ultimately have "\<forall>x \<in> set (cs[index := cs ! nat j, nat j := cs ! index]). leaf_shape x"
      using a(2) by auto
    with a(1) m show ?thesis by (simp add: leaf_shape_set_children)
  qed
qed

lemma move_search:
  "cb = move_callback dir \<longrightarrow> node_id n \<noteq> ident \<longrightarrow> leaf_shape n \<longrightarrow>
     (\<forall>r. findAndModify n ident cb parent index = Some r \<longrightarrow> (\<exists>n'. r = TouchedNode n' \<and> leaf_shape n'))"
  "cb = move_callback dir \<longrightarrow> (\<forall>pre. children node = Some (pre @ rest) \<longrightarrow> length pre = k \<longrightarrow>
     leaf_shape node \<longrightarrow> (\<forall>r. findAndModify_children node rest k ident cb = Some r \<longrightarrow> leaf_shape r))"
proof (induction n ident cb parent index and node rest k ident cb
    rule: findAndModify_findAndModify_children.induct)
  case (1 i t l p s e ch targetId cb parent index)
  let ?n = "ComponentSchema i t l p s e ch"
  show ?case
  proof (intro impI allI)
    fix r
    assume cb: "cb = move_callback dir" and ne: "node_id ?n \<noteq> targetId" and ls: "leaf_shape ?n"
      and f: "findAndModify ?n targetId cb parent index = Some r"
    from ne have ne': "i \<noteq> targetId" by simp
    from f ne' obtain cs where ch: "ch = Some cs" by (cases ch) auto
    with f ne' obtain n' where n': "findAndModify_children ?n cs 0 targetId cb = Some n'" and r: "r = TouchedNode n'"
      by auto
    from "1.IH"[OF ne' ch] cb ch ls n' have "leaf_shape n'" by auto
    with r show "\<exists>n'. r = TouchedNode n' \<and> leaf_shape n'" by simp
  qed
next
  case (2 node k targetId cb)
  then show ?case by simp
next
  case (3 node c rest k targetId cb)
  show ?case
  proof (intro impI allI)
    fix pre r
    assume cb: "cb = move_callback dir" and ch: "children node = Some (pre @ c # rest)"
      and k: "length pre = k" and ls: "leaf_shape node"
      and f: "findAndModify_children node (c # rest) k targetId cb = Some r"
    from ls ch have lc: "leaf_shape c" by (auto simp: leaf_shape_unfold[of node])
    show "leaf_shape r"
    proof (cases "node_id c = targetId")
      case True
      from k have "k < length (pre @ c # rest)" by auto
      from move_callback_leaf_shape[OF ls ch this, of dir c] obtain p' where
        "move_callback dir c (Some node) k = TouchedParent p'" "leaf_shape p'" by blast
      with f True cb show ?thesis by (simp add: findAndModify_unfold)
    next
      case False
      show ?thesis
      proof (cases "findAndModify c targetId cb (Some node) k")
        case None
        from ch have "children node = Some ((pre @ [c]) @ rest)" by simp
        moreover from f None have "findAndModify_children node rest (Suc k) targetId cb = Some r" by simp
        moreover have "length (pre @ [c]) = Suc k" using k by simp
        ultimately show ?thesis using "3.IH"(2)[OF None] cb ls by blast
      next
        case (Some t)
        with "3.IH"(1) cb False lc obtain c' where t: "t = TouchedNode c'" and c': "leaf_shape c'" by blast
        with f Some have "r = set_child node k c'" by simp
        with ls c' show ?thesis by (simp add: leaf_shape_set_child)
      qed
    qed
  qed
qed

lemma modified_root_move_leaf_shape:
  "leaf_shape r \<Longrightarrow> leaf_shape (modified_root r ident (move_callback dir))"
proof (cases "node_id r = ident")
  case True
  assume "leaf_shape r"
  then show ?thesis using True
    by (simp add: modified_root_def findAndModify_unfold move_callback_def)
next
  case False
  assume "leaf_shape r"
  with move_search(1)[of "move_callback dir" dir r ident None 0] False show ?thesis
    by (auto simp: modified_root_def split: option.splits touched.splits)
qed

lemma leaf_shape_newComponent: "leaf_shape (newComponent t now)"
  by (cases t) (simp_all add: newComponent_def)

lemma leaf_shape_push_child:
  "leaf_shape p \<Longrightarrow> \<not> is_leaf_kind (node_type p) \<Longrightarrow> leaf_shape c \<Longrightarrow> leaf_shape (push_child c p)"
  by (cases "children p") (auto simp: push_child_def leaf_shape_set_children leaf_shape_unfold[of p])

lemma leaf_shape_assign:
  "leaf_shape n \<Longrightarrow> u_type u = None \<Longrightarrow> u_children u = None \<Longrightarrow> leaf_shape (assign u n)"
  by (cases n) (simp add: assign_def)

lemma leaf_shape_insert_here:
  assumes "leaf_shape p" "\<not> is_leaf_kind (node_type p)" "leaf_shape d"
  shows "leaf_shape (insert_here index d p)"
proof -
  define cs where "cs = (case children p of None \<Rightarrow> [] | Some cs \<Rightarrow> cs)"
  have a: "\<forall>x \<in> set cs. leaf_shape x"
    using assms(1) by (cases "children p") (auto simp: cs_def leaf_shape_unfold[of p])
  have "set (splice_in (safeIndex index (length cs)) d cs) \<subseteq> insert d (set cs)"
    using set_take_subset[of "safeIndex index (length cs)" cs] set_drop_subset[of "safeIndex index (length cs)" cs]
    by (auto simp: splice_in_def)
  with a assms(3) have "\<forall>x \<in> set (splice_in (safeIndex index (length cs)) d cs). leaf_shape x"
    by auto
  with assms(2) show ?thesis
    by (simp add: insert_here_def Let_def leaf_shape_set_children flip: cs_def)
qed

lemma addComponent_leaf_shape:
  assumes ls: "leaf_shape (root st)"
    and k: "if parentId = ''root'' then \<not> is_leaf_kind (node_type (root st))
            else \<forall>p. findNode (root st) parentId = Some p \<longrightarrow> \<not> is_leaf_kind (node_type p)"
  shows "leaf_shape (root (addComponent parentId t now st))"
proof (cases "parentId = ''root''")
  case True
  with ls k show ?thesis
    by (simp add: addComponent_root leaf_shape_push_child leaf_shape_newComponent)
next
  case False
  show ?thesis
  proof (cases "findNode (root st) parentId")
    case None
    with modified_root_node[of "root st" parentId "push_child (newComponent t now)"] False ls
    show ?thesis by (simp add: addComponent_root)
  next
    case (Some p)
    with modified_root_node[of "root st" parentId "push_child (newComponent t now)"]
    have r: "replaced p (push_child (newComponent t now) p) (root st) (root (addComponent parentId t now st))"
      using False by (simp add: addComponent_root)
    from k False Some have nk: "\<not> is_leaf_kind (node_type p)" by simp
    show ?thesis
      by (rule replaced_leaf_shape[OF r ls]) (simp add: leaf_shape_push_child nk leaf_shape_newComponent)
  qed
qed

lemma updateComponent_leaf_shape:
  assumes ls: "leaf_shape (root st)" and u: "u_type u = None" "u_children u = None"
  shows "leaf_shape (root (updateComponent ident u st))"
proof (cases "findNode (root st) ident")
  case None
  with modified_root_node[of "root st" ident "assign u"] ls
  show ?thesis by (simp add: updateComponent_def)
next
  case (Some p)
  with modified_root_node[of "root st" ident "assign u"]
  have r: "replaced p (assign u p) (root st) (root (updateComponent ident u st))"
    by (simp add: updateComponent_def)
  show ?thesis
    by (rule replaced_leaf_shape[OF r ls]) (simp add: leaf_shape_assign u)
qed

lemma deleteComponent_leaf_shape:
  assumes ls: "leaf_shape (root st)"
  shows "leaf_shape (root (deleteComponent ident st))"
proof (cases "ident = ''root''")
  case True
  with ls show ?thesis by (simp add: deleteComponent_def)
next
  case False
  then have r: "root (deleteComponent ident st) = modified_root (root st) ident delete_callback"
    by (simp add: deleteComponent_def)
  show ?thesis
    using modified_root_delete[of "root st" ident] ls detached_leaf_shape
    unfolding r by (auto split: option.splits if_splits)
qed

lemma moveComponent_leaf_shape:
  "leaf_shape (root st) \<Longrightarrow> leaf_shape (root (moveComponent ident dir st))"
  by (simp add: moveComponent_def modified_root_move_leaf_shape)

lemma moveComponentTo_leaf_shape:
  assumes ls: "leaf_shape (root st)"
    and k: "\<forall>t1 d p. removeNode dragId (root st) = Some (t1, d) \<and> findNode t1 targetId = Some p
              \<longrightarrow> \<not> is_leaf_kind (node_type p)"
  shows "leaf_shape (root (moveComponentTo dragId targetId index st))"
proof (cases "removeNode dragId (root st)")
  case None
  with ls show ?thesis by (simp add: moveComponentTo_def)
next
  case (Some r)
  obtain t1 d where r: "r = (t1, d)" by (cases r)
  from removeNode_detached(1)[of dragId "root st" t1 d] Some r
  have "detached dragId d (root st) t1" by simp
  from detached_leaf_shape[OF this ls] have l1: "leaf_shape t1" and ld: "leaf_shape d" by simp_all
  show ?thesis
  proof (cases "findNode t1 targetId")
    case None
    with insertNode_search(1)[where n=t1 and targetId=targetId and index=index and d=d] have "insertNode targetId index d t1 = None" by simp
    with Some r ls show ?thesis by (simp add: moveComponentTo_def)
  next
    case (Some p)
    with insertNode_search(1)[where n=t1 and targetId=targetId and index=index and d=d] obtain t2 where
      i: "insertNode targetId index d t1 = Some t2" and rp: "replaced p (insert_here index d p) t1 t2"
      by auto
    from k \<open>removeNode dragId (root st) = Some r\<close> r Some have nk: "\<not> is_leaf_kind (node_type p)" by blast
    have l2: "leaf_shape t2"
      by (rule replaced_leaf_shape[OF rp l1]) (simp add: leaf_shape_insert_here nk ld)
    show ?thesis
      using \<open>removeNode dragId (root st) = Some r\<close> r i l2 ls
      by (simp add: moveComponentTo_def)
  qed
qed

text \<open>
  Claim C3, as the code has it. The store does not look at the kind of a parent or of a
  target; the editor's handlers do that before they call it. From a tree in leaf shape:
  \<^verbatim>\<open>deleteComponent\<close> and \<^verbatim>\<open>moveComponent\<close> give a tree in leaf shape; \<^verbatim>\<open>addComponent\<close> leaves the
  tree as it is when the parent id is not \<^verbatim>\<open>'root'\<close> and no node has it, appends the new
  component to the first node with the parent id otherwise (to the root for \<^verbatim>\<open>'root'\<close>),
  whatever its kind and with a new children list when it had none, and keeps the leaf shape
  when that node is of a container kind; \<^verbatim>\<open>updateComponent\<close> keeps it when the updates carry
  neither a type nor children; \<^verbatim>\<open>moveComponentTo\<close> keeps it when the target found after the
  removal is of a container kind.
\<close>

theorem leaf_shape_operations:
  assumes "leaf_shape (root st)"
  shows
   "leaf_shape (root (deleteComponent ident st))
    \<and> leaf_shape (root (moveComponent ident dir st))
    \<and> (parentId \<noteq> ''root'' \<and> findNode (root st) parentId = None
         \<longrightarrow> root (addComponent parentId t now st) = root st)
    \<and> (parentId \<noteq> ''root''
         \<longrightarrow> (\<forall>p. findNode (root st) parentId = Some p
               \<longrightarrow> replaced p (push_child (newComponent t now) p) (root st)
                     (root (addComponent parentId t now st))))
    \<and> (parentId = ''root''
         \<longrightarrow> root (addComponent parentId t now st) = push_child (newComponent t now) (root st))
    \<and> ((if parentId = ''root'' then \<not> is_leaf_kind (node_type (root st))
         else \<forall>p. findNode (root st) parentId = Some p \<longrightarrow> \<not> is_leaf_kind (node_type p))
         \<longrightarrow> leaf_shape (root (addComponent parentId t now st)))
    \<and> (u_type u = None \<and> u_children u = None
         \<longrightarrow> leaf_shape (root (updateComponent ident u st)))
    \<and> ((\<forall>t1 d p. removeNode dragId (root st) = Some (t1, d) \<and> findNode t1 targetId = Some p
                  \<longrightarrow> \<not> is_leaf_kind (node_type p))
         \<longrightarrow> leaf_shape (root (moveComponentTo dragId targetId index st)))"
proof (intro conjI impI allI)
  show "leaf_shape (root (deleteComponent ident st))"
    using assms by (rule deleteComponent_leaf_shape)
  show "leaf_shape (root (moveComponent ident dir st))"
    using assms by (rule moveComponent_leaf_shape)
next
  assume "parentId \<noteq> ''root'' \<and> findNode (root st) parentId = None"
  with modified_root_node[of "root st" parentId "push_child (newComponent t now)"]
  show "root (addComponent parentId t now st) = root st"
    by (simp add: addComponent_root)
next
  fix p
  assume "parentId \<noteq> ''root''" "findNode (root st) parentId = Some p"
  with modified_root_node[of "root st" parentId "push_child (newComponent t now)"]
  show "replaced p (push_child (newComponent t now) p) (root st) (root (addComponent parentId t now st))"
    by (simp add: addComponent_root)
next
  assume "parentId = ''root''"
  then show "root (addComponent parentId t now st) = push_child (newComponent t now) (root st)"
    by (simp add: addComponent_root)
next
  assume "if parentId = ''root'' then \<not> is_leaf_kind (node_type (root st))
         else \<forall>p. findNode (root st) parentId = Some p \<longrightarrow> \<not> is_leaf_kind (node_type p)"
  with assms show "leaf_shape (root (addComponent parentId t now st))"
    by (rule addComponent_leaf_shape)
next
  assume "u_type u = None \<and> u_children u = None"
  with assms show "leaf_shape (root (updateComponent ident u st))"
    by (simp add: updateComponent_leaf_shape)
next
  assume "\<forall>t1 d p. removeNode dragId (root st) = Some (t1, d) \<and> findNode t1 targetId = Some p
                  \<longrightarrow> \<not> is_leaf_kind (node_type p)"
  with assms show "leaf_shape (root (moveComponentTo dragId targetId index st))"
    by (rule moveComponentTo_leaf_shape)
qed

theorem leaf_shape_operations_witness:
  "leaf_shape (root demo_state)
   \<and> leaf_shape (root (deleteComponent ''b'' demo_state))
   \<and> leaf_shape (root (moveComponent ''b'' Up demo_state))
   \<and> root (addComponent ''zz'' Text 5 demo_state) = root demo_state
   \<and> replaced (box ''a'' Container [leaf ''b'' Button])
        (push_child (newComponent Text 5) (box ''a'' Container [leaf ''b'' Button]))
        (root demo_state) (root (addComponent ''a'' Text 5 demo_state))
   \<and> root (addComponent ''root'' Text 5 demo_state) = push_child (newComponent Text 5) (root demo_state)
   \<and> leaf_shape (root (addComponent ''a'' Text 5 demo_state))
   \<and> leaf_shape (root (updateComponent ''b'' demo_updates demo_state))
   \<and> leaf_shape (root (moveComponentTo ''c'' ''a'' 7 demo_state))"
proof -
  have ls: "leaf_shape (root demo_state)"
    by code_simp
  have f1: "findNode (root demo_state) ''zz'' = None"
    by code_simp
  have f2: "findNode (root demo_state) ''a'' = Some (box ''a'' Container [leaf ''b'' Button])"
    by code_simp
  have k: "\<not> is_leaf_kind (node_type (box ''a'' Container [leaf ''b'' Button]))"
    by (simp add: box_def)
  have rm: "removeNode ''c'' (root demo_state)
              = Some (box ''root'' Page [box ''a'' Container [leaf ''b'' Button]], leaf ''c'' Text)"
    by code_simp
  have f3: "findNode (box ''root'' Page [box ''a'' Container [leaf ''b'' Button]]) ''a''
              = Some (box ''a'' Container [leaf ''b'' Button])"
    by code_simp
  have u: "u_type demo_updates = None \<and> u_children demo_updates = None"
    by (simp add: demo_updates_def)
  have ne: "''zz'' \<noteq> ''root''" "''a'' \<noteq> ''root''"
    by simp_all
  note A = leaf_shape_operations [OF ls, where ident = "''b''" and dir = Up and parentId = "''zz''"
      and t = Text and now = 5 and u = demo_updates and dragId = "''c''" and targetId = "''a''" and index = 7]
  note B = leaf_shape_operations [OF ls, where ident = "''b''" and dir = Up and parentId = "''a''"
      and t = Text and now = 5 and u = demo_updates and dragId = "''c''" and targetId = "''a''" and index = 7]
  note C = leaf_shape_operations [OF ls, where ident = "''b''" and dir = Up and parentId = "''root''"
      and t = Text and now = 5 and u = demo_updates and dragId = "''c''" and targetId = "''a''" and index = 7]
  from A have c1: "leaf_shape (root (deleteComponent ''b'' demo_state))"
    and c2: "leaf_shape (root (moveComponent ''b'' Up demo_state))"
    by blast+
  from A f1 ne have c3: "root (addComponent ''zz'' Text 5 demo_state) = root demo_state"
    by blast
  from B f2 ne have c4: "replaced (box ''a'' Container [leaf ''b'' Button])
        (push_child (newComponent Text 5) (box ''a'' Container [leaf ''b'' Button]))
        (root demo_state) (root (addComponent ''a'' Text 5 demo_state))"
    by blast
  from C have c5: "root (addComponent ''root'' Text 5 demo_state) = push_child (newComponent Text 5) (root demo_state)"
    by blast
  have "if ''a'' = ''root'' then \<not> is_leaf_kind (node_type (root demo_state))
        else \<forall>p. findNode (root demo_state) ''a'' = Some p \<longrightarrow> \<not> is_leaf_kind (node_type p)"
    using f2 k by simp
  with B have c6: "leaf_shape (root (addComponent ''a'' Text 5 demo_state))"
    by blast
  from A u have c7: "leaf_shape (root (updateComponent ''b'' demo_updates demo_state))"
    by blast
  have "\<forall>t1 d p. removeNode ''c'' (root demo_state) = Some (t1, d) \<and> findNode t1 ''a'' = Some p
          \<longrightarrow> \<not> is_leaf_kind (node_type p)"
    using rm f3 k by auto
  with A have c8: "leaf_shape (root (moveComponentTo ''c'' ''a'' 7 demo_state))"
    by blast
  from ls c1 c2 c3 c4 c5 c6 c7 c8 show ?thesis
    by blast
qed

text \<open>
  The claim as stated fails: adding to the button \<^verbatim>\<open>b\<close>, or moving \<^verbatim>\<open>c\<close> to it, gives the
  button a children list.
\<close>

theorem addComponent_into_leaf:
  "findNode (root demo_state) ''b'' = Some (leaf ''b'' Button)
   \<and> is_leaf_kind Button
   \<and> leaf_shape (root demo_state)
   \<and> root (addComponent ''b'' Text 5 demo_state)
       = box ''root'' Page
           [box ''a'' Container [box ''b'' Button [newComponent Text 5]], leaf ''c'' Text]
   \<and> \<not> leaf_shape (root (addComponent ''b'' Text 5 demo_state))
   \<and> \<not> leaf_shape (root (moveComponentTo ''c'' ''b'' 0 demo_state))"
  by (intro conjI; code_simp)

section \<open>Ids of added components\<close>

lemma tree_ids_newComponent: "tree_ids (newComponent t now) = [type_name t @ ''_'' @ string_of_int now]"
  by (simp add: newComponent_def)

lemma tree_ids_push_child: "mset (tree_ids (push_child c p)) = mset (tree_ids p) + mset (tree_ids c)"
  by (cases "children p") (simp_all add: push_child_def tree_ids_set_children tree_ids_unfold[of p])

lemma addComponent_ids:
  "mset (tree_ids (root (addComponent parentId t now st))) = mset (tree_ids (root st))
   \<or> mset (tree_ids (root (addComponent parentId t now st)))
       = mset (tree_ids (root st)) + {#type_name t @ ''_'' @ string_of_int now#}"
proof (cases "parentId = ''root''")
  case True
  then show ?thesis by (simp add: addComponent_root tree_ids_push_child tree_ids_newComponent)
next
  case False
  show ?thesis
  proof (cases "findNode (root st) parentId")
    case None
    with modified_root_node[of "root st" parentId "push_child (newComponent t now)"] False
    show ?thesis by (simp add: addComponent_root)
  next
    case (Some p)
    with modified_root_node[of "root st" parentId "push_child (newComponent t now)"] False
    have "replaced p (push_child (newComponent t now) p) (root st) (root (addComponent parentId t now st))"
      by (simp add: addComponent_root)
    from replaced_ids[OF this] show ?thesis
      by (simp add: tree_ids_push_child tree_ids_newComponent)
  qed
qed

lemma addComponent_distinct:
  assumes "distinct (tree_ids (root st))" "type_name t @ ''_'' @ string_of_int now \<notin> set (tree_ids (root st))"
  shows "distinct (tree_ids (root (addComponent parentId t now st)))"
proof -
  let ?i = "type_name t @ ''_'' @ string_of_int now"
  from addComponent_ids[of parentId t now st]
  consider (same) "mset (tree_ids (root (addComponent parentId t now st))) = mset (tree_ids (root st))"
    | (more) "mset (tree_ids (root (addComponent parentId t now st))) = mset (?i # tree_ids (root st))"
    by auto
  then show ?thesis
  proof cases
    case same
    from mset_eq_imp_distinct_iff[OF this] assms(1) show ?thesis by simp
  next
    case more
    from mset_eq_imp_distinct_iff[OF this] assms show ?thesis by simp
  qed
qed

lemma addComponent_ids_subset:
  "set (tree_ids (root (addComponent parentId t now st)))
     \<subseteq> insert (type_name t @ ''_'' @ string_of_int now) (set (tree_ids (root st)))"
proof -
  from addComponent_ids[of parentId t now st]
  have "set_mset (mset (tree_ids (root (addComponent parentId t now st))))
     \<subseteq> insert (type_name t @ ''_'' @ string_of_int now) (set_mset (mset (tree_ids (root st))))"
    by (elim disjE) (simp_all only: set_mset_union set_mset_add_mset_insert set_mset_empty, auto)
  then show ?thesis by simp
qed

text \<open>
  Claim C4, as the code has it. The id of a new component is its type, an underscore and
  the clock's milliseconds, and the store never compares it with the ids in the tree. From
  a tree with unique ids, a sequence of \<^verbatim>\<open>addComponent\<close> calls gives a tree with unique ids
  when the ids of the calls differ from each other and from the ids already in the tree;
  for two calls with one type that is when the clock has moved on between them.
\<close>

theorem addComponents_unique_ids:
  assumes "distinct (tree_ids (root st))"
    and "distinct (map new_id calls)"
    and "\<forall>c \<in> set calls. new_id c \<notin> set (tree_ids (root st))"
  shows "distinct (tree_ids (root (addComponents calls st)))"
  using assms
proof (induction calls arbitrary: st)
  case Nil
  then show ?case by simp
next
  case (Cons c calls)
  obtain parentId t now where c: "c = (parentId, t, now)" by (cases c)
  let ?st = "addComponent parentId t now st"
  have d: "distinct (tree_ids (root ?st))"
    using Cons.prems c by (intro addComponent_distinct) auto
  have "\<forall>x \<in> set calls. new_id x \<notin> set (tree_ids (root ?st))"
  proof
    fix x assume x: "x \<in> set calls"
    with Cons.prems(2) have "new_id x \<noteq> new_id c" by (metis distinct.simps(2) image_eqI list.simps(9) set_map)
    moreover from Cons.prems(3) x have "new_id x \<notin> set (tree_ids (root st))" by simp
    ultimately show "new_id x \<notin> set (tree_ids (root ?st))"
      using addComponent_ids_subset[of parentId t now st] c by auto
  qed
  with Cons.IH[OF d] Cons.prems(2) show ?case by (simp add: c)
qed

theorem addComponents_unique_ids_witness:
  "tree_ids (root (addComponents [(''root'', Container, 1000), (''container_1000'', Button, 1001)] initial_state))
     = [''root'', ''container_1000'', ''button_1001'']
   \<and> distinct (tree_ids (root (addComponents [(''root'', Container, 1000), (''container_1000'', Button, 1001)] initial_state)))"
proof -
  have a: "distinct (tree_ids (root initial_state))"
    by code_simp
  have b: "distinct (map new_id [(''root'', Container, 1000), (''container_1000'', Button, 1001)])"
    by code_simp
  have c: "\<forall>c \<in> set [(''root'', Container, 1000), (''container_1000'', Button, 1001)].
             new_id c \<notin> set (tree_ids (root initial_state))"
    by code_simp
  have e: "tree_ids (root (addComponents [(''root'', Container, 1000), (''container_1000'', Button, 1001)] initial_state))
     = [''root'', ''container_1000'', ''button_1001'']"
    by code_simp
  from addComponents_unique_ids [OF a b c] e show ?thesis
    by simp
qed

text \<open>
  The claim as stated fails: two buttons added within one millisecond have one id.
\<close>

theorem addComponent_same_millisecond:
  "distinct (tree_ids (root initial_state))
   \<and> tree_ids (root (addComponents [(''root'', Button, 1000), (''root'', Button, 1000)] initial_state))
       = [''root'', ''button_1000'', ''button_1000'']
   \<and> \<not> distinct (tree_ids (root (addComponents [(''root'', Button, 1000), (''root'', Button, 1000)] initial_state)))"
  by (intro conjI; code_simp)

section \<open>The evaluator on the documented examples\<close>

text \<open>
  Outside the pure case the evaluator never interpolates: it throws at the first reference
  that the pattern finds, and returns the template as it is when the pattern finds none.
\<close>

lemma replace_refs_interpolation:
  "replace_refs (interpolation_callback ctx) t = Inl NotAFunction
   \<or> replace_refs (interpolation_callback ctx) t = Inr t"
proof (induction t rule: length_induct)
  case (1 t)
  show ?case
  proof (cases t)
    case Nil
    then show ?thesis by (simp add: replace_refs.simps)
  next
    case (Cons c cs)
    have tl: "replace_refs (interpolation_callback ctx) cs = Inl NotAFunction
        \<or> replace_refs (interpolation_callback ctx) cs = Inr cs"
      using "1.IH" Cons by simp
    show ?thesis
    proof (cases "starts_with ''{{'' (c # cs) \<and> find_close [] (drop 1 cs) \<noteq> None")
      case True
      then obtain path rest where "find_close [] (drop 1 cs) = Some (path, rest)" by auto
      with True have "replace_refs (interpolation_callback ctx) (c # cs) = Inl NotAFunction"
        by (subst replace_refs.simps) (simp add: interpolation_callback_def split: json.splits)
      with Cons show ?thesis by simp
    next
      case False
      then have "replace_refs (interpolation_callback ctx) (c # cs)
          = (case replace_refs (interpolation_callback ctx) cs of Inl e \<Rightarrow> Inl e | Inr t \<Rightarrow> Inr (c # t))"
        by (subst replace_refs.simps) (auto split: option.splits)
      with tl Cons show ?thesis by auto
    qed
  qed
qed

lemma evaluateExpression_interpolation:
  "pureMatch t = None \<Longrightarrow>
     evaluateExpression (JStr t) ctx = Inl NotAFunction \<or> evaluateExpression (JStr t) ctx = Inr (JStr t)"
  using replace_refs_interpolation[of ctx t]
  by (auto simp: evaluateExpression_def)

text \<open>
  Claim C5. The four round-trip cases of the expression evaluator. The two pure references
  evaluate as the claim says: the number \<open>5\<close> for \<^verbatim>\<open>{{ a.b }}\<close>, and \<^verbatim>\<open>undefined\<close> for the missing
  path. The two templates with text around the reference should give the strings \<^verbatim>\<open>x=5\<close> and
  \<^verbatim>\<open>y=\<close>; the code throws a \<^verbatim>\<open>TypeError\<close> on both, from the callback of \<^verbatim>\<open>replace\<close>.
\<close>

theorem evaluateExpression_round_trip_throws:
  "evaluateExpression (JStr ''{{ a.b }}'') [(''a'', JObj [(''b'', JNum 5)])] = Inr (JNum 5)
   \<and> evaluateExpression (JStr ''x={{ a.b }}'') [(''a'', JObj [(''b'', JNum 5)])] = Inl NotAFunction
   \<and> evaluateExpression (JStr ''{{ missing }}'') [] = Inr JUndefined
   \<and> evaluateExpression (JStr ''y={{ missing }}'') [] = Inl NotAFunction"
proof (intro conjI)
  show "evaluateExpression (JStr ''{{ a.b }}'') [(''a'', JObj [(''b'', JNum 5)])] = Inr (JNum 5)"
    by code_simp
  show "evaluateExpression (JStr ''x={{ a.b }}'') [(''a'', JObj [(''b'', JNum 5)])] = Inl NotAFunction"
    by code_simp
  show "evaluateExpression (JStr ''{{ missing }}'') [] = Inr JUndefined"
    by code_simp
  show "evaluateExpression (JStr ''y={{ missing }}'') [] = Inl NotAFunction"
    by code_simp
qed

text \<open>
  Claim C6. A template with references and other characters should be interpolated to a
  string. The pure pattern is anchored at both ends and its group \<^verbatim>\<open>.+?\<close> may run over
  closing braces, so \<^verbatim>\<open>{{ a }} {{ b }}\<close> matches it with the group \<^verbatim>\<open> a }} {{ b \<close>: the
  evaluator looks up the path \<^verbatim>\<open>a }} {{ b\<close> and returns \<^verbatim>\<open>undefined\<close>, where interpolation
  would give the string \<^verbatim>\<open>1 2\<close>. A template that the pure pattern does not match, such
  as \<^verbatim>\<open>a={{ a }}, b={{ b }}\<close>, throws.
\<close>

theorem evaluateExpression_two_references:
  "pureMatch ''{{ a }} {{ b }}'' = Some '' a }} {{ b ''
   \<and> evaluateExpression (JStr ''{{ a }} {{ b }}'') [(''a'', JNum 1), (''b'', JNum 2)] = Inr JUndefined
   \<and> evaluateExpression (JStr ''a={{ a }}, b={{ b }}'') [(''a'', JNum 1), (''b'', JNum 2)] = Inl NotAFunction"
proof (intro conjI)
  show "pureMatch ''{{ a }} {{ b }}'' = Some '' a }} {{ b ''"
    by code_simp
  show "evaluateExpression (JStr ''{{ a }} {{ b }}'') [(''a'', JNum 1), (''b'', JNum 2)] = Inr JUndefined"
    by code_simp
  show "evaluateExpression (JStr ''a={{ a }}, b={{ b }}'') [(''a'', JNum 1), (''b'', JNum 2)] = Inl NotAFunction"
    by code_simp
qed

section \<open>Facts about the action runner\<close>

lemma map_of_obj_set: "map_of (obj_set k v kvs) k = Some v"
  by (induction kvs) auto

lemma trace_emit [simp]: "trace (emit e w) = trace w @ [e]"
  by (simp add: emit_def)

lemma live_emit [simp]: "live (emit e w) = live w"
  by (simp add: emit_def)

lemma net_emit [simp]: "net (emit e w) = net w"
  by (simp add: emit_def)

lemma trace_store_set [simp]: "trace (store_set k v w) = trace w"
  by (simp add: store_set_def)

lemma net_store_set [simp]: "net (store_set k v w) = net w"
  by (simp add: store_set_def)

lemma storeData_store_set [simp]:
  "storeData (live (store_set k v w)) = obj_set k v (storeData (live w))"
  by (simp add: store_set_def setStoreData_def)

lemma trace_apply_mapping [simp]: "trace (apply_mapping js w e) = trace w"
  by (simp add: apply_mapping_def Let_def)

lemma net_apply_mapping [simp]: "net (apply_mapping js w e) = net w"
  by (simp add: apply_mapping_def Let_def)

lemma trace_foldl_mapping [simp]: "trace (foldl (apply_mapping js) w es) = trace w"
  by (induction es arbitrary: w) simp_all

lemma net_foldl_mapping [simp]: "net (foldl (apply_mapping js) w es) = net w"
  by (induction es arbitrary: w) simp_all

lemma carries_snapshot_build_request:
  "build_request parse gd ctx a = Inr r \<Longrightarrow> carries_snapshot gd r"
  by (auto simp: carries_snapshot_def build_request_def Let_def map_of_obj_set split: sum.splits)

lemma runAction_events:
  "\<exists>evs. trace (world_of (runAction parse gd ctx a w)) = trace w @ evs
         \<and> started evs = []
         \<and> (\<forall>r. Fetch r \<in> set evs \<longrightarrow> carries_snapshot gd r)"
proof (cases "action_type a")
  case N8nWebhook
  then show ?thesis
    by (auto simp: runAction_def webhook_def Let_def carries_snapshot_build_request
             split: list.splits response.splits sum.splits)
qed (auto simp: runAction_def split: sum.splits)

lemma run_loop_events:
  "\<exists>evs. trace (snd (run_loop parse gd ctx as w)) = trace w @ evs
         \<and> (\<forall>r. Fetch r \<in> set evs \<longrightarrow> carries_snapshot gd r)"
proof (induction as arbitrary: w)
  case Nil
  then show ?case by simp
next
  case (Cons a as)
  let ?o = "runAction parse gd ctx a (emit (Running a) w)"
  from runAction_events[of parse gd ctx a "emit (Running a) w"] obtain evs where
    e: "trace (world_of ?o) = trace w @ Running a # evs" "\<forall>r. Fetch r \<in> set evs \<longrightarrow> carries_snapshot gd r"
    by auto
  show ?case
  proof (cases ?o)
    case (Completed w')
    from Cons.IH[of w'] obtain evs' where
      "trace (snd (run_loop parse gd ctx as w')) = trace w' @ evs'"
      "\<forall>r. Fetch r \<in> set evs' \<longrightarrow> carries_snapshot gd r" by blast
    with e Completed show ?thesis
      by (intro exI[of _ "Running a # evs @ evs'"]) auto
  next
    case (Threw err w')
    from Cons.IH[of "emit (ErrorLog (action_type a) err) w'"] obtain evs' where
      "trace (snd (run_loop parse gd ctx as (emit (ErrorLog (action_type a) err) w')))
         = trace (emit (ErrorLog (action_type a) err) w') @ evs'"
      "\<forall>r. Fetch r \<in> set evs' \<longrightarrow> carries_snapshot gd r" by blast
    with e Threw show ?thesis
      by (intro exI[of _ "Running a # evs @ ErrorLog (action_type a) err # evs'"]) auto
  next
    case (Pending w')
    with e show ?thesis
      by (intro exI[of _ "Running a # evs"]) auto
  qed
qed

lemma runActions_Some:
  "as \<noteq> [] \<Longrightarrow> runActions parse (Some as) lc w
     = run_loop parse (storeData (live w)) (spread2 (storeData (live w)) lc) as w"
  by (simp add: runActions_def Let_def)

lemma started_append: "started (xs @ ys) = started xs @ started ys"
  by (induction xs rule: started.induct) simp_all

lemma run_loop_append:
  "run_loop parse gd ctx (as1 @ as2) w =
     (if fst (run_loop parse gd ctx as1 w)
      then run_loop parse gd ctx as2 (snd (run_loop parse gd ctx as1 w))
      else run_loop parse gd ctx as1 w)"
  by (induction as1 arbitrary: w) (auto split: outcome.splits)

lemma runActions_extend:
  assumes "runActions parse (Some pre) lc w = (True, w1)"
  shows "runActions parse (Some (pre @ a # post)) lc w
           = run_loop parse (storeData (live w)) (spread2 (storeData (live w)) lc) (a # post) w1"
proof (cases "pre = []")
  case True
  with assms show ?thesis by (simp add: runActions_def Let_def)
next
  case False
  with assms have "run_loop parse (storeData (live w)) (spread2 (storeData (live w)) lc) pre w = (True, w1)"
    by (simp add: runActions_Some)
  then show ?thesis
    by (simp add: runActions_Some run_loop_append del: run_loop.simps)
qed

lemma runAction_Pending:
  "runAction parse gd ctx a w = Pending w' \<Longrightarrow>
     is_webhook a \<and> net w = [] \<and> net w' = [] \<and> live w' = live w
     \<and> (\<exists>r. build_request parse gd ctx a = Inr r \<and> trace w' = trace w @ [Fetch r])"
  by (cases "action_type a")
     (auto simp: runAction_def webhook_def Let_def is_webhook_def
           split: list.splits response.splits if_splits sum.splits)

lemma runAction_Threw:
  "runAction parse gd ctx a w = Threw e w' \<Longrightarrow> live w' = live w"
  by (cases "action_type a")
     (auto simp: runAction_def webhook_def Let_def
           split: list.splits response.splits if_splits sum.splits)

lemma runAction_net:
  "net w \<noteq> [] \<or> \<not> is_webhook a \<Longrightarrow>
     (\<forall>w'. runAction parse gd ctx a w \<noteq> Pending w')
     \<and> (net (world_of (runAction parse gd ctx a w)) = net w
         \<or> (is_webhook a \<and> net (world_of (runAction parse gd ctx a w)) = tl (net w)))"
  by (cases "action_type a")
     (auto simp: runAction_def webhook_def Let_def is_webhook_def
           split: list.splits response.splits if_splits sum.splits)

lemma run_loop_settles:
  "length (filter is_webhook as) \<le> length (net w) \<Longrightarrow> fst (run_loop parse gd ctx as w)"
proof (induction as arbitrary: w)
  case Nil
  then show ?case by simp
next
  case (Cons a as)
  let ?w = "emit (Running a) w"
  from Cons.prems have ok: "net ?w \<noteq> [] \<or> \<not> is_webhook a" by auto
  from runAction_net[OF ok, of parse gd ctx]
  have np: "\<forall>w'. runAction parse gd ctx a ?w \<noteq> Pending w'"
    and n: "net (world_of (runAction parse gd ctx a ?w)) = net w
         \<or> (is_webhook a \<and> net (world_of (runAction parse gd ctx a ?w)) = tl (net w))"
    by simp_all
  from Cons.prems n have l: "length (filter is_webhook as) \<le> length (net (world_of (runAction parse gd ctx a ?w)))"
    by (auto split: if_splits)
  show ?case
  proof (cases "runAction parse gd ctx a ?w")
    case (Completed w')
    with l have "length (filter is_webhook as) \<le> length (net w')" by simp
    from Cons.IH[OF this] Completed show ?thesis by simp
  next
    case (Threw e w')
    with l have "length (filter is_webhook as) \<le> length (net (emit (ErrorLog (action_type a) e) w'))" by simp
    from Cons.IH[OF this] Threw show ?thesis by simp
  next
    case (Pending w')
    with np show ?thesis by simp
  qed
qed

lemma stuck_on_Cons:
  assumes "stuck_on parse gd ctx as evs" and "started ea = []"
  shows "stuck_on parse gd ctx (a # as) (Running a # ea @ evs)"
proof -
  from assms(1) obtain pre b post r where
    x: "as = pre @ b # post" "is_webhook b" "started evs = pre @ [b]"
       "build_request parse gd ctx b = Inr r" "evs \<noteq> []" "last evs = Fetch r"
    unfolding stuck_on_def by blast
  have "a # as = (a # pre) @ b # post \<and> is_webhook b
        \<and> started (Running a # ea @ evs) = (a # pre) @ [b]
        \<and> build_request parse gd ctx b = Inr r \<and> Running a # ea @ evs \<noteq> []
        \<and> last (Running a # ea @ evs) = Fetch r"
    using x assms(2) by (simp add: started_append)
  then show ?thesis unfolding stuck_on_def by blast
qed

lemma run_loop_started:
  "\<exists>evs. trace (snd (run_loop parse gd ctx as w)) = trace w @ evs
     \<and> (if fst (run_loop parse gd ctx as w) then started evs = as
         else stuck_on parse gd ctx as evs \<and> net (snd (run_loop parse gd ctx as w)) = [])"
proof (induction as arbitrary: w)
  case Nil
  then show ?case by simp
next
  case (Cons a as)
  let ?w = "emit (Running a) w"
  let ?o = "runAction parse gd ctx a ?w"
  from runAction_events[of parse gd ctx a ?w] obtain ea where
    ea: "trace (world_of ?o) = trace w @ Running a # ea" "started ea = []"
    by auto
  show ?case
  proof (cases ?o)
    case (Pending w')
    from runAction_Pending[OF this] obtain r where
      p: "is_webhook a" "net w' = []" "build_request parse gd ctx a = Inr r"
         "trace w' = trace w @ [Running a, Fetch r]"
      by auto
    have "a # as = [] @ a # as \<and> is_webhook a \<and> started [Running a, Fetch r] = [] @ [a]
          \<and> build_request parse gd ctx a = Inr r \<and> [Running a, Fetch r] \<noteq> []
          \<and> last [Running a, Fetch r] = Fetch r"
      using p by simp
    then have "stuck_on parse gd ctx (a # as) [Running a, Fetch r]"
      unfolding stuck_on_def by blast
    with Pending p show ?thesis
      by (intro exI[of _ "[Running a, Fetch r]"]) simp
  next
    case (Completed w')
    let ?r = "run_loop parse gd ctx as w'"
    from Cons.IH[of w'] obtain evs where
      e: "trace (snd ?r) = trace w' @ evs"
         "if fst ?r then started evs = as else stuck_on parse gd ctx as evs \<and> net (snd ?r) = []"
      by blast
    have r: "run_loop parse gd ctx (a # as) w = ?r" using Completed by simp
    have t: "trace (snd ?r) = trace w @ (Running a # ea @ evs)"
      using e(1) ea(1) Completed by simp
    show ?thesis
    proof (cases "fst ?r")
      case True
      with e(2) have "started (Running a # ea @ evs) = a # as"
        by (simp add: started_append ea(2))
      with t True show ?thesis unfolding r by (intro exI[of _ "Running a # ea @ evs"]) simp
    next
      case False
      with e(2) have "stuck_on parse gd ctx (a # as) (Running a # ea @ evs)" "net (snd ?r) = []"
        using stuck_on_Cons[OF _ ea(2)] by simp_all
      with t False show ?thesis unfolding r by (intro exI[of _ "Running a # ea @ evs"]) simp
    qed
  next
    case (Threw err w')
    let ?w2 = "emit (ErrorLog (action_type a) err) w'"
    let ?r = "run_loop parse gd ctx as ?w2"
    from Cons.IH[of ?w2] obtain evs where
      e: "trace (snd ?r) = trace ?w2 @ evs"
         "if fst ?r then started evs = as else stuck_on parse gd ctx as evs \<and> net (snd ?r) = []"
      by blast
    let ?ea = "ea @ [ErrorLog (action_type a) err]"
    have sa: "started ?ea = []" by (simp add: started_append ea(2))
    have r: "run_loop parse gd ctx (a # as) w = ?r" using Threw by simp
    have t: "trace (snd ?r) = trace w @ (Running a # ?ea @ evs)"
      using e(1) ea(1) Threw by simp
    show ?thesis
    proof (cases "fst ?r")
      case True
      with e(2) have "started (Running a # ?ea @ evs) = a # as"
        by (simp add: started_append ea(2))
      with t True show ?thesis unfolding r by (intro exI[of _ "Running a # ?ea @ evs"]) simp
    next
      case False
      with e(2) have "stuck_on parse gd ctx (a # as) (Running a # ?ea @ evs)" "net (snd ?r) = []"
        using stuck_on_Cons[OF _ sa] by simp_all
      with t False show ?thesis unfolding r by (intro exI[of _ "Running a # ?ea @ evs"]) simp
    qed
  qed
qed

section \<open>The context that a webhook sends\<close>

text \<open>
  Every request that a run of \<^verbatim>\<open>runActions\<close> sends carries the snapshot \<^verbatim>\<open>globalData\<close> that the
  run read from the store before its loop: the store is never read again, so the field
  \<^verbatim>\<open>context\<close> does not follow what the actions of the list write.
\<close>

lemma webhook_context_snapshot:
  assumes "Fetch r \<in> set (drop (length (trace w)) (trace (snd (runActions parse actions lc w))))"
  shows "carries_snapshot (storeData (live w)) r"
proof (cases "actions = None \<or> actions = Some []")
  case True
  with assms show ?thesis by (auto simp: runActions_def)
next
  case False
  then obtain as where a: "actions = Some as" "as \<noteq> []" by auto
  then have r: "runActions parse actions lc w
      = run_loop parse (storeData (live w)) (spread2 (storeData (live w)) lc) as w"
    by (simp add: runActions_Some)
  from run_loop_events[of parse "storeData (live w)" "spread2 (storeData (live w)) lc" as w]
  obtain evs where
    "trace (snd (run_loop parse (storeData (live w)) (spread2 (storeData (live w)) lc) as w)) = trace w @ evs"
    "\<forall>r. Fetch r \<in> set evs \<longrightarrow> carries_snapshot (storeData (live w)) r" by blast
  with assms r show ?thesis by simp
qed

text \<open>
  Claim C2. The body of a webhook request with a method other than \<^verbatim>\<open>GET\<close> should carry, in
  its field \<^verbatim>\<open>context\<close>, the data context at the moment the webhook runs, so that a
  \<^verbatim>\<open>setState\<close> earlier in the list shows in it; the comment at the place says that the current
  data of the store is sent. The code sends the snapshot instead: in a store where the key
  \<^verbatim>\<open>k\<close> holds \<^verbatim>\<open>old\<close>, the list of \<^verbatim>\<open>setState(k, new)\<close> and a webhook leaves \<^verbatim>\<open>new\<close> in the store
  after its first action, and the request of the webhook still carries \<^verbatim>\<open>old\<close>.
\<close>

theorem webhook_context_is_stale:
  "storeData (live (snd (runActions (\<lambda>s. None) (Some [set_k ''new'']) []
                    (demo_world [(''k'', JStr ''old'')] [JsonBody JNull]))))
     = [(''k'', JStr ''new'')]
   \<and> trace (snd (runActions (\<lambda>s. None) (Some [set_k ''new'', hook []]) []
                    (demo_world [(''k'', JStr ''old'')] [JsonBody JNull])))
      = [Running (set_k ''new''), Running (hook []),
         Fetch \<lparr>req_url = JStr ''http://n8n/hook'', req_method = JStr ''POST'',
               req_headers = [(''Content-Type'', ''application/json'')],
               req_body = Some (JObj [(''context'', JObj [(''k'', JStr ''old'')])])\<rparr>,
         ResponseLog JNull]"
  by (intro conjI; code_simp)

section \<open>The evaluation context of a run\<close>

text \<open>
  Claim C10. The merged context is computed once, from the data context at the call and
  the local context. When the actions \<open>pre\<close> have run and left the world \<open>w1\<close>, whatever they
  wrote, a next action \<open>a\<close> of the same list evaluates its templates against the merged
  context of the world \<open>w\<close> in which the run began: so for the value of \<^verbatim>\<open>setState\<close>, the
  message of \<^verbatim>\<open>consoleLog\<close> and \<^verbatim>\<open>alert\<close>, an evaluation that throws, and the request of a
  webhook. The writes are in the live store: a separate run of \<open>a\<close> that begins in \<open>w1\<close>
  evaluates against the data context of \<open>w1\<close>.
\<close>

theorem context_fixed_at_start:
  assumes "runActions parse (Some pre) lc w = (True, w1)"
  shows
    "(action_type a = SetState
        \<and> evaluateExpression (cfg (config a) ''value'') (spread2 (storeData (live w)) lc) = Inr v \<longrightarrow>
        runActions parse (Some (pre @ [a])) lc w
          = (True, store_set (js_String (cfg (config a) ''key'')) v (emit (Running a) w1)))
     \<and> (action_type a = ConsoleLog
        \<and> evaluateExpression (cfg (config a) ''message'') (spread2 (storeData (live w)) lc) = Inr v \<longrightarrow>
        runActions parse (Some (pre @ [a])) lc w = (True, emit (ActionLog v) (emit (Running a) w1)))
     \<and> (action_type a = Alert
        \<and> evaluateExpression (cfg (config a) ''message'') (spread2 (storeData (live w)) lc) = Inr v \<longrightarrow>
        runActions parse (Some (pre @ [a])) lc w = (True, emit (AlertShown v) (emit (Running a) w1)))
     \<and> (action_type a \<noteq> N8nWebhook
        \<and> evaluateExpression (cfg (config a) (if action_type a = SetState then ''value'' else ''message''))
              (spread2 (storeData (live w)) lc) = Inl e \<longrightarrow>
        runActions parse (Some (pre @ [a])) lc w
          = (True, emit (ErrorLog (action_type a) e) (emit (Running a) w1)))
     \<and> (action_type a = N8nWebhook
        \<and> build_request parse (storeData (live w)) (spread2 (storeData (live w)) lc) a = Inr r \<longrightarrow>
        (\<exists>rest. trace (snd (runActions parse (Some (pre @ [a])) lc w))
           = trace w1 @ Running a # Fetch r # rest))
     \<and> (action_type a = SetState
        \<and> evaluateExpression (cfg (config a) ''value'') (spread2 (storeData (live w1)) lc) = Inr v \<longrightarrow>
        runActions parse (Some [a]) lc w1
          = (True, store_set (js_String (cfg (config a) ''key'')) v (emit (Running a) w1)))
     \<and> (action_type a = ConsoleLog
        \<and> evaluateExpression (cfg (config a) ''message'') (spread2 (storeData (live w1)) lc) = Inr v \<longrightarrow>
        runActions parse (Some [a]) lc w1 = (True, emit (ActionLog v) (emit (Running a) w1)))"
proof -
  have e: "runActions parse (Some (pre @ [a])) lc w
      = run_loop parse (storeData (live w)) (spread2 (storeData (live w)) lc) [a] w1"
    using runActions_extend[OF assms, of a "[]"] by simp
  have s: "runActions parse (Some [a]) lc w1
      = run_loop parse (storeData (live w1)) (spread2 (storeData (live w1)) lc) [a] w1"
    by (simp add: runActions_Some)
  have h: "action_type a = N8nWebhook \<Longrightarrow>
        build_request parse (storeData (live w)) (spread2 (storeData (live w)) lc) a = Inr r \<Longrightarrow>
        \<exists>rest. trace (snd (run_loop parse (storeData (live w)) (spread2 (storeData (live w)) lc) [a] w1))
           = trace w1 @ Running a # Fetch r # rest"
    by (auto simp: runAction_def webhook_def Let_def split: list.splits response.splits)
  have t: "action_type a \<noteq> N8nWebhook \<Longrightarrow>
        evaluateExpression (cfg (config a) (if action_type a = SetState then ''value'' else ''message''))
              (spread2 (storeData (live w)) lc) = Inl e \<Longrightarrow>
        run_loop parse (storeData (live w)) (spread2 (storeData (live w)) lc) [a] w1
          = (True, emit (ErrorLog (action_type a) e) (emit (Running a) w1))"
    by (cases "action_type a") (auto simp: runAction_def split: if_splits)
  show ?thesis
    unfolding e s using h t by (auto simp: runAction_def)
qed

theorem context_fixed_at_start_witness:
  "trace (snd (runActions (\<lambda>s. None) (Some ([set_k ''new''] @ [log_k])) []
                 (demo_world [(''k'', JStr ''old'')] [])))
     = [Running (set_k ''new''), Running log_k, ActionLog (JStr ''old'')]
   \<and> storeData (live (snd (runActions (\<lambda>s. None) (Some ([set_k ''new''] @ [log_k])) []
                 (demo_world [(''k'', JStr ''old'')] []))))
     = [(''k'', JStr ''new'')]
   \<and> trace (snd (runActions (\<lambda>s. None) (Some [log_k]) []
                 (store_set ''k'' (JStr ''new'')
                    (emit (Running (set_k ''new'')) (demo_world [(''k'', JStr ''old'')] [])))))
     = [Running (set_k ''new''), Running log_k, ActionLog (JStr ''new'')]"
proof -
  let ?w = "demo_world [(''k'', JStr ''old'')] []"
  let ?w1 = "store_set ''k'' (JStr ''new'') (emit (Running (set_k ''new'')) ?w)"
  have p: "runActions (\<lambda>s. None) (Some [set_k ''new'']) [] ?w = (True, ?w1)"
    by code_simp
  have t: "action_type log_k = ConsoleLog"
    by (simp add: log_k_def)
  have v: "evaluateExpression (cfg (config log_k) ''message'') (spread2 (storeData (live ?w)) []) = Inr (JStr ''old'')"
    by code_simp
  have v1: "evaluateExpression (cfg (config log_k) ''message'') (spread2 (storeData (live ?w1)) []) = Inr (JStr ''new'')"
    by code_simp
  have tr: "trace ?w1 = [Running (set_k ''new'')]" "storeData (live ?w1) = [(''k'', JStr ''new'')]"
    by (simp_all add: demo_world_def)
  from context_fixed_at_start [OF p, of log_k "JStr ''old''"] t v
  have a: "runActions (\<lambda>s. None) (Some ([set_k ''new''] @ [log_k])) [] ?w
      = (True, emit (ActionLog (JStr ''old'')) (emit (Running log_k) ?w1))"
    by blast
  from context_fixed_at_start [OF p, of log_k "JStr ''new''"] t v1
  have b: "runActions (\<lambda>s. None) (Some [log_k]) [] ?w1
      = (True, emit (ActionLog (JStr ''new'')) (emit (Running log_k) ?w1))"
    by blast
  show ?thesis
    unfolding a b using tr by simp
qed

section \<open>Failures of single actions\<close>

text \<open>
  Claim C8. When the network answers every call of the list, the run comes to its end and
  every action of the list is started, in order, whichever of them fail: a failure never
  leaves \<^verbatim>\<open>runActions\<close>. An action whose \<^verbatim>\<open>try\<close> block throws leaves the store as it was, the
  error is logged, and the rest of the list runs from there. A webhook whose call is
  rejected, or whose response does not parse, throws in this way, and so does an action
  whose template evaluation throws.
\<close>

theorem action_failures_are_contained:
  "(length (filter is_webhook actions) \<le> length (net w) \<longrightarrow>
      fst (runActions parse (Some actions) lc w)
      \<and> started (drop (length (trace w)) (trace (snd (runActions parse (Some actions) lc w)))) = actions)
   \<and> (runActions parse (Some pre) lc w = (True, w1)
        \<and> runAction parse (storeData (live w)) (spread2 (storeData (live w)) lc) a (emit (Running a) w1)
            = Threw e w2 \<longrightarrow>
      fst (runActions parse (Some (pre @ [a])) lc w)
      \<and> live (snd (runActions parse (Some (pre @ [a])) lc w)) = live w1
      \<and> trace (snd (runActions parse (Some (pre @ [a])) lc w)) = trace w2 @ [ErrorLog (action_type a) e]
      \<and> runActions parse (Some (pre @ a # post)) lc w
          = run_loop parse (storeData (live w)) (spread2 (storeData (live w)) lc) post
              (snd (runActions parse (Some (pre @ [a])) lc w)))
   \<and> (is_webhook a \<and> build_request parse gd ctx a = Inr r \<and> net w0 = NetworkError # rs \<longrightarrow>
      runAction parse gd ctx a w0 = Threw FetchRejected ((emit (Fetch r) w0)\<lparr>net := rs\<rparr>))
   \<and> (is_webhook a \<and> build_request parse gd ctx a = Inr r \<and> net w0 = InvalidJson # rs \<longrightarrow>
      runAction parse gd ctx a w0 = Threw JsonRejected ((emit (Fetch r) w0)\<lparr>net := rs\<rparr>))
   \<and> (\<not> is_webhook a
        \<and> evaluateExpression (cfg (config a) (if action_type a = SetState then ''value'' else ''message'')) ctx
            = Inl e \<longrightarrow>
      runAction parse gd ctx a w0 = Threw e w0)"
proof (intro conjI impI)
  assume n: "length (filter is_webhook actions) \<le> length (net w)"
  show "fst (runActions parse (Some actions) lc w)"
    using run_loop_settles[OF n] by (cases "actions = []") (simp_all add: runActions_def Let_def)
  show "started (drop (length (trace w)) (trace (snd (runActions parse (Some actions) lc w)))) = actions"
  proof (cases "actions = []")
    case True
    then show ?thesis by (simp add: runActions_def)
  next
    case False
    from run_loop_started[of parse "storeData (live w)" "spread2 (storeData (live w)) lc" actions w]
      run_loop_settles[OF n, of parse "storeData (live w)" "spread2 (storeData (live w)) lc"]
    obtain evs where
      "trace (snd (run_loop parse (storeData (live w)) (spread2 (storeData (live w)) lc) actions w)) = trace w @ evs"
      "started evs = actions"
      by auto
    with False show ?thesis by (simp add: runActions_Some)
  qed
next
  let ?gd = "storeData (live w)"
  let ?ctx = "spread2 (storeData (live w)) lc"
  assume h: "runActions parse (Some pre) lc w = (True, w1)
        \<and> runAction parse ?gd ?ctx a (emit (Running a) w1) = Threw e w2"
  then have p: "runActions parse (Some pre) lc w = (True, w1)"
    and r: "runAction parse ?gd ?ctx a (emit (Running a) w1) = Threw e w2"
    by simp_all
  have e: "runActions parse (Some (pre @ [a])) lc w = run_loop parse ?gd ?ctx [a] w1"
    using runActions_extend[OF p, of a "[]"] by simp
  have f: "runActions parse (Some (pre @ a # post)) lc w = run_loop parse ?gd ?ctx (a # post) w1"
    using runActions_extend[OF p, of a post] by simp
  from runAction_Threw[OF r] have l: "live w2 = live w1" by simp
  show "fst (runActions parse (Some (pre @ [a])) lc w)"
    unfolding e using r by simp
  show "live (snd (runActions parse (Some (pre @ [a])) lc w)) = live w1"
    unfolding e using r l by simp
  show "trace (snd (runActions parse (Some (pre @ [a])) lc w)) = trace w2 @ [ErrorLog (action_type a) e]"
    unfolding e using r by simp
  show "runActions parse (Some (pre @ a # post)) lc w
          = run_loop parse ?gd ?ctx post (snd (runActions parse (Some (pre @ [a])) lc w))"
    unfolding e f using r by simp
next
  assume "is_webhook a \<and> build_request parse gd ctx a = Inr r \<and> net w0 = NetworkError # rs"
  then show "runAction parse gd ctx a w0 = Threw FetchRejected ((emit (Fetch r) w0)\<lparr>net := rs\<rparr>)"
    by (simp add: is_webhook_def runAction_def webhook_def Let_def)
next
  assume "is_webhook a \<and> build_request parse gd ctx a = Inr r \<and> net w0 = InvalidJson # rs"
  then show "runAction parse gd ctx a w0 = Threw JsonRejected ((emit (Fetch r) w0)\<lparr>net := rs\<rparr>)"
    by (simp add: is_webhook_def runAction_def webhook_def Let_def)
next
  assume "\<not> is_webhook a
        \<and> evaluateExpression (cfg (config a) (if action_type a = SetState then ''value'' else ''message'')) ctx
            = Inl e"
  then show "runAction parse gd ctx a w0 = Threw e w0"
    by (cases "action_type a") (auto simp: is_webhook_def runAction_def split: if_splits)
qed

theorem action_failures_are_contained_witness:
  "trace (snd (runActions (\<lambda>s. None) (Some ([] @ hook [] # [log_bad, log_k])) []
                  (demo_world [(''k'', JStr ''old'')] [NetworkError])))
     = [Running (hook []),
        Fetch \<lparr>req_url = JStr ''http://n8n/hook'', req_method = JStr ''POST'',
              req_headers = [(''Content-Type'', ''application/json'')],
              req_body = Some (JObj [(''context'', JObj [(''k'', JStr ''old'')])])\<rparr>,
        ErrorLog N8nWebhook FetchRejected,
        Running log_bad, ErrorLog ConsoleLog NotAFunction,
        Running log_k, ActionLog (JStr ''old'')]
   \<and> fst (runActions (\<lambda>s. None) (Some [hook [], log_bad, log_k]) [] (demo_world [(''k'', JStr ''old'')] [NetworkError]))
   \<and> started (trace (snd (runActions (\<lambda>s. None) (Some [hook [], log_bad, log_k]) []
                  (demo_world [(''k'', JStr ''old'')] [NetworkError]))))
       = [hook [], log_bad, log_k]
   \<and> live (snd (runActions (\<lambda>s. None) (Some ([] @ [hook []])) []
                  (demo_world [(''k'', JStr ''old'')] [NetworkError])))
       = live (demo_world [(''k'', JStr ''old'')] [NetworkError])"
proof -
  let ?w = "demo_world [(''k'', JStr ''old'')] [NetworkError]"
  let ?r = "\<lparr>req_url = JStr ''http://n8n/hook'', req_method = JStr ''POST'',
              req_headers = [(''Content-Type'', ''application/json'')],
              req_body = Some (JObj [(''context'', JObj [(''k'', JStr ''old'')])])\<rparr>"
  let ?gd = "[(''k'', JStr ''old'')]"
  have n: "length (filter is_webhook [hook [], log_bad, log_k]) \<le> length (net ?w)"
    by code_simp
  have p: "runActions (\<lambda>s. None) (Some []) [] ?w = (True, ?w)"
    by (simp add: runActions_def)
  have h: "is_webhook (hook [])"
    by (simp add: is_webhook_def hook_def)
  have b: "build_request (\<lambda>s. None) ?gd ?gd (hook []) = Inr ?r"
    by code_simp
  have t: "trace ?w = []" "storeData (live ?w) = ?gd" "net (emit (Running (hook [])) ?w) = NetworkError # []"
    by (simp_all add: demo_world_def)
  have s: "spread2 ?gd [] = ?gd"
    by (simp add: spread2_def)
  have rest: "trace (snd (run_loop (\<lambda>s. None) ?gd ?gd [log_bad, log_k]
        (emit (ErrorLog N8nWebhook FetchRejected) ((emit (Fetch ?r) (emit (Running (hook [])) ?w))\<lparr>net := []\<rparr>))))
      = [Running (hook []), Fetch ?r, ErrorLog N8nWebhook FetchRejected,
         Running log_bad, ErrorLog ConsoleLog NotAFunction, Running log_k, ActionLog (JStr ''old'')]"
    by code_simp
  note A = action_failures_are_contained [where actions = "[hook [], log_bad, log_k]" and w = ?w
      and parse = "\<lambda>s. None" and lc = "[]" and pre = "[]" and ?w1.0 = ?w and a = "hook []"
      and post = "[log_bad, log_k]" and gd = ?gd and ctx = ?gd and r = ?r
      and ?w0.0 = "emit (Running (hook [])) ?w" and rs = "[]" and e = FetchRejected
      and ?w2.0 = "(emit (Fetch ?r) (emit (Running (hook [])) ?w))\<lparr>net := []\<rparr>"]
  from A n have c1: "fst (runActions (\<lambda>s. None) (Some [hook [], log_bad, log_k]) [] ?w)"
    and c2: "started (drop (length (trace ?w)) (trace (snd (runActions (\<lambda>s. None) (Some [hook [], log_bad, log_k]) [] ?w))))
       = [hook [], log_bad, log_k]"
    by blast+
  from A h b t(3) have th: "runAction (\<lambda>s. None) ?gd ?gd (hook []) (emit (Running (hook [])) ?w)
      = Threw FetchRejected ((emit (Fetch ?r) (emit (Running (hook [])) ?w))\<lparr>net := []\<rparr>)"
    by blast
  from A p th have c3: "live (snd (runActions (\<lambda>s. None) (Some ([] @ [hook []])) [] ?w)) = live ?w"
    and c4: "runActions (\<lambda>s. None) (Some ([] @ hook [] # [log_bad, log_k])) [] ?w
       = run_loop (\<lambda>s. None) (storeData (live ?w)) (spread2 (storeData (live ?w)) []) [log_bad, log_k]
           (snd (runActions (\<lambda>s. None) (Some ([] @ [hook []])) [] ?w))"
    and c5: "trace (snd (runActions (\<lambda>s. None) (Some ([] @ [hook []])) [] ?w))
       = trace ((emit (Fetch ?r) (emit (Running (hook [])) ?w))\<lparr>net := []\<rparr>) @ [ErrorLog (action_type (hook [])) FetchRejected]"
    and c6: "fst (runActions (\<lambda>s. None) (Some ([] @ [hook []])) [] ?w)"
    unfolding t s by blast+
  have w2: "snd (runActions (\<lambda>s. None) (Some ([] @ [hook []])) [] ?w)
      = emit (ErrorLog N8nWebhook FetchRejected) ((emit (Fetch ?r) (emit (Running (hook [])) ?w))\<lparr>net := []\<rparr>)"
    by code_simp
  have c7: "trace (snd (runActions (\<lambda>s. None) (Some ([] @ hook [] # [log_bad, log_k])) [] ?w))
     = [Running (hook []), Fetch ?r, ErrorLog N8nWebhook FetchRejected,
        Running log_bad, ErrorLog ConsoleLog NotAFunction, Running log_k, ActionLog (JStr ''old'')]"
    unfolding c4 t s w2 rest ..
  from c1 c2 c3 c7 show ?thesis
    unfolding t by simp
qed

section \<open>The order of the actions\<close>



section \<open>Moving a component keeps the tree whole\<close>

lemma detached_id: "detached dragId d n n' \<Longrightarrow> node_id d = dragId"
  by (induction rule: detached.induct) simp_all

lemma node_id_in_tree_ids: "node_id n \<in> set (tree_ids n)"
  by (cases n) simp

lemma removeNode_None:
  assumes "dragId \<notin> set (tree_ids n)"
  shows "removeNode dragId n = None"
proof (cases "removeNode dragId n")
  case None
  then show ?thesis .
next
  case (Some r)
  obtain n' d where "r = (n', d)" by (cases r)
  with Some removeNode_detached(1)[of dragId n n' d] have de: "detached dragId d n n'" by simp
  from detached_ids[OF de] have "set (tree_ids d) \<subseteq> set (tree_ids n)"
    by (metis mset_subset_eqD mset_subset_eq_add_right set_mset_mset subsetI)
  moreover have "dragId \<in> set (tree_ids d)"
    using detached_id[OF de] node_id_in_tree_ids[of d] by simp
  ultimately show ?thesis using assms by blast
qed

lemma findNode_children_skip:
  "ident \<notin> set (concat (map tree_ids xs)) \<Longrightarrow>
     findNode_children (xs @ zs) ident = findNode_children zs ident"
proof (induction xs)
  case Nil
  then show ?case by simp
next
  case (Cons x xs)
  then have "findNode x ident = None" by (simp add: findNode_None_iff(1))
  with Cons show ?case by simp
qed

lemma detached_is_found:
  "detached dragId d n n' \<Longrightarrow> distinct (tree_ids n) \<Longrightarrow> findNode n dragId = Some d"
proof (induction rule: detached.induct)
  case (detached_here n xs d ys dragId)
  have ids: "tree_ids n = node_id n # concat (map tree_ids xs) @ tree_ids d @ concat (map tree_ids ys)"
    using detached_here.hyps(1) by (simp add: tree_ids_unfold[of n])
  have in_d: "dragId \<in> set (tree_ids d)"
    using detached_here.hyps(2) node_id_in_tree_ids[of d] by simp
  from detached_here.prems ids in_d have ne: "node_id n \<noteq> dragId"
    and nx: "dragId \<notin> set (concat (map tree_ids xs))"
    by auto
  have "findNode n dragId = findNode_children (xs @ d # ys) dragId"
    using ne detached_here.hyps(1) by (simp add: findNode_unfold)
  also have "\<dots> = findNode_children (d # ys) dragId"
    using nx by (rule findNode_children_skip)
  also have "\<dots> = Some d"
    using detached_here.hyps(2) findNode_self[of d] by simp
  finally show ?case .
next
  case (detached_below n xs c ys dragId d c')
  have ids: "tree_ids n = node_id n # concat (map tree_ids xs) @ tree_ids c @ concat (map tree_ids ys)"
    using detached_below.hyps(1) by (simp add: tree_ids_unfold[of n])
  from detached_below.prems ids have dc: "distinct (tree_ids c)" by simp
  from detached_below.IH[OF dc] have f: "findNode c dragId = Some d" .
  then have in_c: "dragId \<in> set (tree_ids c)"
    using findNode_None_iff(1)[of c dragId] by auto
  from detached_below.prems ids in_c have ne: "node_id n \<noteq> dragId"
    and nx: "dragId \<notin> set (concat (map tree_ids xs))"
    by auto
  have "findNode n dragId = findNode_children (xs @ c # ys) dragId"
    using ne detached_below.hyps(1) by (simp add: findNode_unfold)
  also have "\<dots> = findNode_children (c # ys) dragId"
    using nx by (rule findNode_children_skip)
  also have "\<dots> = Some d"
    using f by simp
  finally show ?case .
qed

lemma move_into_own_subtree:
  assumes dist: "distinct (tree_ids (root st))"
    and f: "findNode (root st) dragId = Some d"
    and t: "targetId \<in> set (tree_ids d)"
  shows "moveComponentTo dragId targetId index st = st"
proof (cases "removeNode dragId (root st)")
  case None
  then show ?thesis by (simp add: moveComponentTo_def)
next
  case (Some r)
  obtain t1 d' where r: "r = (t1, d')" by (cases r)
  with Some removeNode_detached(1)[of dragId "root st" t1 d'] have de: "detached dragId d' (root st) t1"
    by simp
  from detached_is_found[OF de dist] f have "d' = d" by simp
  from detached_ids[OF de] have "mset (tree_ids (root st)) = mset (tree_ids t1 @ tree_ids d')" by simp
  from mset_eq_imp_distinct_iff[OF this] dist have "distinct (tree_ids t1 @ tree_ids d')" by simp
  with t \<open>d' = d\<close> have "targetId \<notin> set (tree_ids t1)" by auto
  then have "findNode t1 targetId = None" by (simp add: findNode_None_iff(1))
  with insertNode_search(1)[where n=t1 and targetId=targetId and index=index and d=d']
  have "insertNode targetId index d' t1 = None" by simp
  with Some r show ?thesis by (simp add: moveComponentTo_def)
qed

text \<open>
  Claim C1. For every tree and every call \<^verbatim>\<open>moveComponentTo(dragId, targetId, index)\<close>, either
  the state is the one before the call, or the dragged subtree \<open>d\<close> was taken out of one
  children list and put back, as it was, into the children list of a node with the id
  \<open>targetId\<close> at the clamped index, with selection and data context untouched. In both cases
  the tree holds the same ids as before, each as often as before: no node is lost or doubled.
  The state is the one before the call when \<open>dragId\<close> is \<^verbatim>\<open>'root'\<close>, or equals \<open>targetId\<close>, or is
  not in the tree, and, in a tree with unique ids, when \<open>targetId\<close> lies in the subtree of
  the node with the id \<open>dragId\<close>.
\<close>

theorem moveComponentTo_atomic:
  "(moveComponentTo dragId targetId index st = st
     \<or> (\<exists>d t1. detached dragId d (root st) t1
           \<and> attached targetId index d t1 (root (moveComponentTo dragId targetId index st))
           \<and> selectedId (moveComponentTo dragId targetId index st) = selectedId st
           \<and> storeData (moveComponentTo dragId targetId index st) = storeData st))
   \<and> mset (tree_ids (root (moveComponentTo dragId targetId index st))) = mset (tree_ids (root st))
   \<and> (dragId = ''root'' \<or> dragId = targetId \<or> dragId \<notin> set (tree_ids (root st))
        \<or> (distinct (tree_ids (root st))
             \<and> (\<exists>d. findNode (root st) dragId = Some d \<and> targetId \<in> set (tree_ids d)))
       \<longrightarrow> moveComponentTo dragId targetId index st = st)"
proof -
  have core: "(moveComponentTo dragId targetId index st = st
     \<or> (\<exists>d t1. detached dragId d (root st) t1
           \<and> attached targetId index d t1 (root (moveComponentTo dragId targetId index st))
           \<and> selectedId (moveComponentTo dragId targetId index st) = selectedId st
           \<and> storeData (moveComponentTo dragId targetId index st) = storeData st))
   \<and> mset (tree_ids (root (moveComponentTo dragId targetId index st))) = mset (tree_ids (root st))"
  proof (cases "dragId = ''root'' \<or> dragId = targetId")
    case True
    then show ?thesis by (auto simp: moveComponentTo_def)
  next
    case False
    show ?thesis
    proof (cases "removeNode dragId (root st)")
      case None
      with False show ?thesis by (simp add: moveComponentTo_def)
    next
      case (Some r)
      obtain t1 d where r: "r = (t1, d)" by (cases r)
      show ?thesis
      proof (cases "insertNode targetId index d t1")
        case None
        with False Some r show ?thesis by (simp add: moveComponentTo_def)
      next
        case (Some t2)
        with False \<open>removeNode dragId (root st) = Some r\<close> r
        have m: "moveComponentTo dragId targetId index st = st\<lparr>root := t2\<rparr>"
          by (simp add: moveComponentTo_def)
        have de: "detached dragId d (root st) t1"
          using removeNode_detached(1)[of dragId "root st" t1 d] \<open>removeNode dragId (root st) = Some r\<close> r by simp
        have at: "attached targetId index d t1 t2"
          using insertNode_attached(1)[of targetId index d t1 t2] Some by simp
        have "mset (tree_ids t2) = mset (tree_ids (root st))"
          using detached_ids[OF de] attached_ids[OF at] by simp
        with de at m show ?thesis by auto
      qed
    qed
  qed
  have fails: "moveComponentTo dragId targetId index st = st"
    if "dragId = ''root'' \<or> dragId = targetId \<or> dragId \<notin> set (tree_ids (root st))
        \<or> (distinct (tree_ids (root st))
             \<and> (\<exists>d. findNode (root st) dragId = Some d \<and> targetId \<in> set (tree_ids d)))"
  proof -
    from that consider "dragId = ''root'' \<or> dragId = targetId" | "dragId \<notin> set (tree_ids (root st))"
      | d where "distinct (tree_ids (root st))" "findNode (root st) dragId = Some d"
          "targetId \<in> set (tree_ids d)"
      by blast
    then show ?thesis
    proof cases
      case 1
      then show ?thesis by (auto simp: moveComponentTo_def)
    next
      case 2
      then show ?thesis by (simp add: moveComponentTo_def removeNode_None)
    next
      case 3
      then show ?thesis by (rule move_into_own_subtree)
    qed
  qed
  from core fails show ?thesis by blast
qed

theorem moveComponentTo_atomic_witness:
  "root (moveComponentTo ''c'' ''a'' 7 demo_state)
     = box ''root'' Page [box ''a'' Container [leaf ''b'' Button, leaf ''c'' Text]]
   \<and> (\<exists>d t1. detached ''c'' d (root demo_state) t1
         \<and> attached ''a'' 7 d t1 (root (moveComponentTo ''c'' ''a'' 7 demo_state)))
   \<and> mset (tree_ids (root (moveComponentTo ''c'' ''a'' 7 demo_state))) = mset [''root'', ''a'', ''b'', ''c'']
   \<and> moveComponentTo ''a'' ''b'' 0 demo_state = demo_state"
proof -
  have e: "root (moveComponentTo ''c'' ''a'' 7 demo_state)
     = box ''root'' Page [box ''a'' Container [leaf ''b'' Button, leaf ''c'' Text]]"
    by code_simp
  have r: "root demo_state = box ''root'' Page [box ''a'' Container [leaf ''b'' Button], leaf ''c'' Text]"
    by (simp add: demo_state_def)
  have ne: "moveComponentTo ''c'' ''a'' 7 demo_state \<noteq> demo_state"
  proof
    assume "moveComponentTo ''c'' ''a'' 7 demo_state = demo_state"
    then have "root (moveComponentTo ''c'' ''a'' 7 demo_state) = root demo_state" by simp
    then show False unfolding e r by (simp add: box_def leaf_def)
  qed
  have i: "tree_ids (root demo_state) = [''root'', ''a'', ''b'', ''c'']"
    by (simp add: r box_def leaf_def)
  have d: "distinct (tree_ids (root demo_state))"
    by (simp add: i)
  have f: "findNode (root demo_state) ''a'' = Some (box ''a'' Container [leaf ''b'' Button])"
    by code_simp
  have t: "''b'' \<in> set (tree_ids (box ''a'' Container [leaf ''b'' Button]))"
    by (simp add: box_def leaf_def)
  from moveComponentTo_atomic [of "''c''" "''a''" 7 demo_state] ne i e
  have c1: "\<exists>d t1. detached ''c'' d (root demo_state) t1
         \<and> attached ''a'' 7 d t1 (root (moveComponentTo ''c'' ''a'' 7 demo_state))"
    and c2: "mset (tree_ids (root (moveComponentTo ''c'' ''a'' 7 demo_state))) = mset [''root'', ''a'', ''b'', ''c'']"
    by auto
  from moveComponentTo_atomic [of "''a''" "''b''" 0 demo_state] d f t
  have c3: "moveComponentTo ''a'' ''b'' 0 demo_state = demo_state"
    by blast
  from e c1 c2 c3 show ?thesis
    by blast
qed

end
